theory Spec2Isabelle
  imports Main "HOL-Library.Word"
begin

section \<open>Generic power domains: drivers/base/power/domain.c\<close>

text \<open>
  A shallow embedding of the generic PM domain engine.  Domains and devices live in a
  store indexed by identifiers (the model's pointers).  Every function of the source that
  is used below is a function on that store which returns the C return value together
  with the new store.  A call that never returns (a \<^verbatim>\<open>mutex_lock\<close> on a mutex that
  is already held in this single thread of control, a NULL dereference, a recursion that
  exceeds the given depth) yields \<open>None\<close>.  The model is sequential: one thread of
  control runs each operation to its end.  A C name with a leading double underscore is
  written with the prefix \<open>dunder_\<close>.  Diagnostic output (\<^verbatim>\<open>dev_dbg\<close>,
  \<^verbatim>\<open>pr_debug\<close>, \<^verbatim>\<open>pr_warn\<close>) and memory barriers do not act on the store and are
  left out; the diagnostics of \<^verbatim>\<open>WARN_ON\<close> are counted.
\<close>

subsection \<open>Data model\<close>

type_synonym domid = nat
type_synonym devid = nat

datatype gpd_status = GPD_STATE_ACTIVE | GPD_STATE_POWER_OFF

text \<open>
  A \<^verbatim>\<open>struct gpd_link\<close> is identified by its two end points; it is a member of the
  \<^verbatim>\<open>master_links\<close> list of its master and of the \<^verbatim>\<open>slave_links\<close> list of its slave.
\<close>

record gpd_link =
  master :: domid
  slave :: domid

record dev_power_governor =
  power_down_ok :: "(domid \<Rightarrow> bool) option"
  stop_ok :: "(devid \<Rightarrow> bool) option"

text \<open>
  \<^verbatim>\<open>struct dev_pm_ops\<close> of a device type, class, bus or driver: the two members that
  domain.c reads.
\<close>

record dev_pm_ops =
  runtime_suspend :: "(devid \<Rightarrow> int) option"
  runtime_resume :: "(devid \<Rightarrow> int) option"

datatype pm_qos_flag = PM_QOS_FLAG_NO_POWER_OFF | PM_QOS_FLAG_REMOTE_WAKEUP

datatype pm_qos_flags_status =
  PM_QOS_FLAGS_UNDEFINED | PM_QOS_FLAGS_NONE | PM_QOS_FLAGS_SOME | PM_QOS_FLAGS_ALL

record gpd_timing_data =
  suspend_latency_ns :: int
  resume_latency_ns :: int
  effective_constraint_ns :: int
  constraint_changed :: bool
  cached_stop_ok :: bool

record generic_pm_domain_data =
  base_dev :: devid
  td :: gpd_timing_data

text \<open>
  \<^verbatim>\<open>dev->power.subsys_data\<close>: reference counted, holding the \<^verbatim>\<open>domain_data\<close>
  pointer.
\<close>

record pm_subsys_data =
  refcount :: "32 word"
  domain_data :: "generic_pm_domain_data option"

text \<open>
  The part of \<^verbatim>\<open>struct device\<close> that domain.c reads and writes.  The answers of the
  runtime PM core (\<^verbatim>\<open>pm_runtime_suspended\<close>, \<^verbatim>\<open>pm_runtime_enabled\<close>) and of the
  wakeup framework are fields of the device.  \<open>type_pm\<close> is \<^verbatim>\<open>dev->type->pm\<close>,
  \<open>None\<close> when \<^verbatim>\<open>dev->type\<close> or \<^verbatim>\<open>dev->type->pm\<close> is NULL, and likewise for
  the class, the bus and the driver.
\<close>

record device =
  pm_domain :: "domid option"
  subsys_data :: "pm_subsys_data option"
  power_lock :: bool
  irq_safe :: bool
  wakeup_path :: bool
  can_wakeup :: bool
  may_wakeup :: bool
  runtime_suspended :: bool
  runtime_enabled :: bool
  qos_flags :: "pm_qos_flag set"
  qos_nb_registered :: bool
  type_pm :: "dev_pm_ops option"
  class_pm :: "dev_pm_ops option"
  bus_pm :: "dev_pm_ops option"
  driver_pm :: "dev_pm_ops option"

text \<open>
  The per-device callbacks of a domain receive the device: its identifier and its
  contents.
\<close>

record gpd_dev_ops =
  start :: "(devid \<Rightarrow> device \<Rightarrow> int) option"
  stop :: "(devid \<Rightarrow> device \<Rightarrow> int) option"
  save_state :: "(devid \<Rightarrow> device \<Rightarrow> int) option"
  restore_state :: "(devid \<Rightarrow> device \<Rightarrow> int) option"
  active_wakeup :: "(devid \<Rightarrow> device \<Rightarrow> bool) option"

text \<open>
  \<^verbatim>\<open>struct generic_pm_domain\<close>.  The \<^verbatim>\<open>unsigned int\<close> counters are 32-bit words.
  \<^verbatim>\<open>sd_count\<close> is an \<^verbatim>\<open>atomic_t\<close>: a 32-bit word that is read as a signed
  integer, so that an increment of the largest value \<open>2^31 - 1\<close> gives the smallest
  value \<open>- 2^31\<close>.  A function pointer is an optional function, \<open>None\<close> being NULL; the
  provider callbacks are taken to be pure: they return a value and do not themselves
  write to the domain store.
\<close>

record generic_pm_domain =
  gov :: "dev_power_governor option"
  status :: gpd_status
  device_count :: "32 word"
  suspended_count :: "32 word"
  prepared_count :: "32 word"
  suspend_power_off :: bool
  sd_count :: "32 word"
  power_on_latency_ns :: int
  power_off_latency_ns :: int
  max_off_time_ns :: int
  max_off_time_changed :: bool
  master_links :: "gpd_link list"
  slave_links :: "gpd_link list"
  dev_list :: "devid list"
  lock :: bool
  power_on :: "(domid \<Rightarrow> int) option"
  power_off :: "(domid \<Rightarrow> int) option"
  dev_ops :: gpd_dev_ops
  attach_dev :: "(domid \<Rightarrow> devid \<Rightarrow> int) option"
  detach_dev :: "(domid \<Rightarrow> devid \<Rightarrow> unit) option"
  pm_clk_flag :: bool

text \<open>Callbacks that were invoked, in the order of invocation.\<close>

datatype callback =
    Cb_power_on domid
  | Cb_power_off domid
  | Cb_start devid
  | Cb_stop devid
  | Cb_save_state devid
  | Cb_restore_state devid
  | Cb_active_wakeup devid
  | Cb_attach_dev domid devid
  | Cb_detach_dev domid devid
  | Cb_power_down_ok domid
  | Cb_stop_ok devid

text \<open>
  The store.  \<open>gpd_list\<close> is the registry; \<open>pm_wq\<close> holds the pending
  \<^verbatim>\<open>power_off_work\<close> items; \<open>clock\<close> gives the successive readings of
  \<^verbatim>\<open>ktime_get\<close> and \<open>ticks\<close> counts the readings taken; \<open>alloc_ok\<close> says which
  of the successive allocations succeed and \<open>allocs\<close> counts them; \<open>warnings\<close>
  counts the \<^verbatim>\<open>WARN_ON\<close> diagnostics; \<open>no_constraint_ns\<close> is the value of the macro
  \<^verbatim>\<open>PM_QOS_RESUME_LATENCY_NO_CONSTRAINT_NS\<close>, which is defined outside domain.c.
\<close>

record state =
  domains :: "domid \<Rightarrow> generic_pm_domain"
  devices :: "devid \<Rightarrow> device"
  gpd_list :: "domid list"
  gpd_list_lock :: bool
  pm_wq :: "domid list"
  calls :: "callback list"
  clock :: "nat \<Rightarrow> int"
  ticks :: nat
  alloc_ok :: "nat \<Rightarrow> bool"
  allocs :: nat
  warnings :: nat
  no_constraint_ns :: int

definition EAGAIN :: int where "EAGAIN = 11"
definition ENOMEM :: int where "ENOMEM = 12"
definition EBUSY :: int where "EBUSY = 16"
definition EINVAL :: int where "EINVAL = 22"

subsection \<open>Store primitives\<close>

definition upd_domain :: "domid \<Rightarrow> (generic_pm_domain \<Rightarrow> generic_pm_domain) \<Rightarrow> state \<Rightarrow> state" where
  "upd_domain g f s = s\<lparr>domains := (domains s)(g := f (domains s g))\<rparr>"

definition upd_device :: "devid \<Rightarrow> (device \<Rightarrow> device) \<Rightarrow> state \<Rightarrow> state" where
  "upd_device d f s = s\<lparr>devices := (devices s)(d := f (devices s d))\<rparr>"

definition called :: "callback \<Rightarrow> state \<Rightarrow> state" where
  "called c s = s\<lparr>calls := calls s @ [c]\<rparr>"

text \<open>
  Modelled from the spec: \<^verbatim>\<open>ktime_get\<close>, defined outside domain.c.  The spec measures
  the time that elapses around a callback; each call reads the next value of the clock.
\<close>

definition ktime_get :: "state \<Rightarrow> int \<times> state" where
  "ktime_get s = (clock s (ticks s), s\<lparr>ticks := Suc (ticks s)\<rparr>)"

text \<open>
  Modelled from the spec: \<^verbatim>\<open>kzalloc\<close>, defined outside domain.c.  The spec allocates
  a link or a binding, which may fail for lack of memory; each call takes the next answer
  of \<open>alloc_ok\<close>, and \<open>False\<close> is the NULL pointer.
\<close>

definition kzalloc :: "state \<Rightarrow> bool \<times> state" where
  "kzalloc s = (alloc_ok s (allocs s), s\<lparr>allocs := Suc (allocs s)\<rparr>)"

text \<open>
  Modelled from the spec: \<^verbatim>\<open>mutex_lock\<close> and \<^verbatim>\<open>mutex_unlock\<close> on the
  per-domain mutex, defined outside domain.c.  With one thread of control, taking a mutex
  that is held never returns.
\<close>

definition mutex_lock :: "domid \<Rightarrow> state \<Rightarrow> state option" where
  "mutex_lock g s =
     (if lock (domains s g) then None else Some (upd_domain g (\<lambda>d. d\<lparr>lock := True\<rparr>) s))"

definition mutex_unlock :: "domid \<Rightarrow> state \<Rightarrow> state" where
  "mutex_unlock g s = upd_domain g (\<lambda>d. d\<lparr>lock := False\<rparr>) s"

text \<open>
  Modelled from the spec: \<^verbatim>\<open>queue_work(pm_wq, &genpd->power_off_work)\<close>, whose
  definition is outside domain.c.  The work item is per domain and idempotent: queueing
  an item that is already pending changes nothing.
\<close>

definition queue_work :: "domid \<Rightarrow> state \<Rightarrow> state" where
  "queue_work g s = (if g \<in> set (pm_wq s) then s else s\<lparr>pm_wq := pm_wq s @ [g]\<rparr>)"

subsection \<open>Counters and provider callbacks\<close>

text \<open>
  Modelled from the spec: the operations on the atomic subdomain counter, defined outside
  domain.c.  \<^verbatim>\<open>atomic_read\<close> gives the value of the counter as a signed integer;
  \<^verbatim>\<open>atomic_inc\<close> adds one to the 32-bit word and wraps around;
  \<^verbatim>\<open>atomic_dec_and_test\<close> subtracts one, wrapping around as well, and says whether
  the result is zero.
\<close>

definition atomic_read :: "32 word \<Rightarrow> int" where
  "atomic_read v = sint v"

definition atomic_inc :: "32 word \<Rightarrow> 32 word" where
  "atomic_inc v = v + 1"

definition atomic_dec_and_test :: "32 word \<Rightarrow> bool \<times> 32 word" where
  "atomic_dec_and_test v = (v - 1 = 0, v - 1)"

definition genpd_sd_counter_dec :: "domid \<Rightarrow> state \<Rightarrow> bool \<times> state" where
  "genpd_sd_counter_dec genpd s =
     (if atomic_read (sd_count (domains s genpd)) = 0
      then (False, s\<lparr>warnings := Suc (warnings s)\<rparr>)
      else
        let (ret, v) = atomic_dec_and_test (sd_count (domains s genpd))
        in (ret, upd_domain genpd (\<lambda>d. d\<lparr>sd_count := v\<rparr>) s))"

definition genpd_sd_counter_inc :: "domid \<Rightarrow> state \<Rightarrow> state" where
  "genpd_sd_counter_inc genpd s =
     upd_domain genpd (\<lambda>d. d\<lparr>sd_count := atomic_inc (sd_count d)\<rparr>) s"

definition genpd_power_on :: "domid \<Rightarrow> bool \<Rightarrow> state \<Rightarrow> int \<times> state" where
  "genpd_power_on genpd timed s =
     (case power_on (domains s genpd) of
        None \<Rightarrow> (0, s)
      | Some cb \<Rightarrow>
          if \<not> timed then (cb genpd, called (Cb_power_on genpd) s)
          else
            let (time_start, s1) = ktime_get s;
                ret = cb genpd;
                s2 = called (Cb_power_on genpd) s1
            in if ret \<noteq> 0 then (ret, s2)
               else
                 let (now, s3) = ktime_get s2;
                     elapsed_ns = now - time_start
                 in if elapsed_ns \<le> power_on_latency_ns (domains s3 genpd) then (ret, s3)
                    else (ret, upd_domain genpd
                            (\<lambda>d. d\<lparr>power_on_latency_ns := elapsed_ns,
                                   max_off_time_changed := True\<rparr>) s3))"

definition genpd_power_off :: "domid \<Rightarrow> bool \<Rightarrow> state \<Rightarrow> int \<times> state" where
  "genpd_power_off genpd timed s =
     (case power_off (domains s genpd) of
        None \<Rightarrow> (0, s)
      | Some cb \<Rightarrow>
          if \<not> timed then (cb genpd, called (Cb_power_off genpd) s)
          else
            let (time_start, s1) = ktime_get s;
                ret = cb genpd;
                s2 = called (Cb_power_off genpd) s1
            in if ret = - EBUSY then (ret, s2)
               else
                 let (now, s3) = ktime_get s2;
                     elapsed_ns = now - time_start
                 in if elapsed_ns \<le> power_off_latency_ns (domains s3 genpd) then (ret, s3)
                    else (ret, upd_domain genpd
                            (\<lambda>d. d\<lparr>power_off_latency_ns := elapsed_ns,
                                   max_off_time_changed := True\<rparr>) s3))"

definition genpd_queue_power_off_work :: "domid \<Rightarrow> state \<Rightarrow> state" where
  "genpd_queue_power_off_work genpd s = queue_work genpd s"

subsection \<open>Power-on walk\<close>

text \<open>
  The body of the two loops that step back over the masters: one decrement and one
  deferred power-off per link.
\<close>

definition dec_and_queue :: "gpd_link \<Rightarrow> state \<Rightarrow> state" where
  "dec_and_queue link s =
     genpd_queue_power_off_work (master link) (snd (genpd_sd_counter_dec (master link) s))"

text \<open>
  The loop over \<^verbatim>\<open>genpd->slave_links\<close> in \<^verbatim>\<open>__genpd_poweron\<close>.  \<open>poweron\<close> is
  \<^verbatim>\<open>genpd_poweron\<close>, called on each master.  \<open>pos\<close> holds the links already
  processed, last one first: these are the links that
  \<^verbatim>\<open>list_for_each_entry_continue_reverse\<close> visits from the position at which the loop
  was left.  The result is the value of \<^verbatim>\<open>ret\<close>, that position and the store.
\<close>

fun poweron_masters ::
  "(domid \<Rightarrow> state \<Rightarrow> (int \<times> state) option) \<Rightarrow> gpd_link list \<Rightarrow> gpd_link list \<Rightarrow> state
    \<Rightarrow> (int \<times> gpd_link list \<times> state) option" where
  "poweron_masters poweron pos [] s = Some (0, pos, s)"
| "poweron_masters poweron pos (link # rest) s =
     (case poweron (master link) (genpd_sd_counter_inc (master link) s) of
        None \<Rightarrow> None
      | Some (ret, s') \<Rightarrow>
          if ret \<noteq> 0 then Some (ret, pos, snd (genpd_sd_counter_dec (master link) s'))
          else poweron_masters poweron (link # pos) rest s')"

text \<open>
  \<^verbatim>\<open>__genpd_poweron\<close>, with \<^verbatim>\<open>genpd_poweron\<close> as a parameter.  The label
  \<^verbatim>\<open>err\<close> is the \<open>fold\<close> of \<open>dec_and_queue\<close> over the position.
\<close>

definition dunder_genpd_poweron_body ::
  "(domid \<Rightarrow> state \<Rightarrow> (int \<times> state) option) \<Rightarrow> domid \<Rightarrow> state \<Rightarrow> (int \<times> state) option" where
  "dunder_genpd_poweron_body poweron genpd s =
     (if status (domains s genpd) = GPD_STATE_ACTIVE
         \<or> (0 < prepared_count (domains s genpd) \<and> suspend_power_off (domains s genpd))
      then Some (0, s)
      else
        case poweron_masters poweron [] (slave_links (domains s genpd)) s of
          None \<Rightarrow> None
        | Some (ret, pos, s1) \<Rightarrow>
            if ret \<noteq> 0 then Some (ret, fold dec_and_queue pos s1)
            else
              let (ret, s2) = genpd_power_on genpd True s1
              in if ret \<noteq> 0 then Some (ret, fold dec_and_queue pos s2)
                 else Some (0, upd_domain genpd (\<lambda>d. d\<lparr>status := GPD_STATE_ACTIVE\<rparr>) s2))"

text \<open>
  \<^verbatim>\<open>genpd_poweron\<close>: take the mutex, run \<^verbatim>\<open>__genpd_poweron\<close>, release the mutex.
  The first argument bounds the depth of the recursion through the masters.
\<close>

primrec genpd_poweron :: "nat \<Rightarrow> domid \<Rightarrow> state \<Rightarrow> (int \<times> state) option" where
  "genpd_poweron 0 genpd s = None"
| "genpd_poweron (Suc n) genpd s =
     (case mutex_lock genpd s of
        None \<Rightarrow> None
      | Some s1 \<Rightarrow>
          (case dunder_genpd_poweron_body (genpd_poweron n) genpd s1 of
             None \<Rightarrow> None
           | Some (ret, s2) \<Rightarrow> Some (ret, mutex_unlock genpd s2)))"

definition dunder_genpd_poweron :: "nat \<Rightarrow> domid \<Rightarrow> state \<Rightarrow> (int \<times> state) option" where
  "dunder_genpd_poweron n genpd s = dunder_genpd_poweron_body (genpd_poweron n) genpd s"


subsection \<open>Device callbacks\<close>

text \<open>The macro \<^verbatim>\<open>GENPD_DEV_CALLBACK\<close>: the zero of the type when the routine is NULL.\<close>

definition GENPD_DEV_CALLBACK ::
  "(devid \<Rightarrow> device \<Rightarrow> int) option \<Rightarrow> callback \<Rightarrow> devid \<Rightarrow> state \<Rightarrow> int \<times> state" where
  "GENPD_DEV_CALLBACK routine c dev s =
     (case routine of None \<Rightarrow> (0, s) | Some f \<Rightarrow> (f dev (devices s dev), called c s))"

definition genpd_stop_dev :: "domid \<Rightarrow> devid \<Rightarrow> state \<Rightarrow> int \<times> state" where
  "genpd_stop_dev genpd dev s =
     GENPD_DEV_CALLBACK (stop (dev_ops (domains s genpd))) (Cb_stop dev) dev s"

definition genpd_start_dev :: "domid \<Rightarrow> devid \<Rightarrow> state \<Rightarrow> int \<times> state" where
  "genpd_start_dev genpd dev s =
     GENPD_DEV_CALLBACK (start (dev_ops (domains s genpd))) (Cb_start dev) dev s"

definition genpd_save_dev :: "domid \<Rightarrow> devid \<Rightarrow> state \<Rightarrow> int \<times> state" where
  "genpd_save_dev genpd dev s =
     GENPD_DEV_CALLBACK (save_state (dev_ops (domains s genpd))) (Cb_save_state dev) dev s"

definition genpd_restore_dev :: "domid \<Rightarrow> devid \<Rightarrow> state \<Rightarrow> int \<times> state" where
  "genpd_restore_dev genpd dev s =
     GENPD_DEV_CALLBACK (restore_state (dev_ops (domains s genpd))) (Cb_restore_state dev) dev s"


text \<open>\<^verbatim>\<open>dev_to_genpd\<close>: \<open>None\<close> is the error pointer.\<close>

definition dev_to_genpd :: "state \<Rightarrow> devid \<Rightarrow> domid option" where
  "dev_to_genpd s dev = pm_domain (devices s dev)"

subsection \<open>Power-off\<close>

text \<open>
  Modelled from the spec: \<^verbatim>\<open>dev_pm_qos_flags\<close>, defined outside domain.c.  The spec
  has the walk query PM-QoS for the two flags, any of them set meaning busy; the answer
  compares the effective flags of the device with the mask.
\<close>

definition dev_pm_qos_flags :: "device \<Rightarrow> pm_qos_flag set \<Rightarrow> pm_qos_flags_status" where
  "dev_pm_qos_flags dev flags_mask =
     (let val = qos_flags dev \<inter> flags_mask
      in if val = {} then PM_QOS_FLAGS_NONE
         else if val = flags_mask then PM_QOS_FLAGS_ALL else PM_QOS_FLAGS_SOME)"

text \<open>\<^verbatim>\<open>stat > PM_QOS_FLAGS_NONE\<close> in the order of the enumeration.\<close>

fun above_none :: "pm_qos_flags_status \<Rightarrow> bool" where
  "above_none PM_QOS_FLAGS_UNDEFINED = False"
| "above_none PM_QOS_FLAGS_NONE = False"
| "above_none PM_QOS_FLAGS_SOME = True"
| "above_none PM_QOS_FLAGS_ALL = True"

text \<open>
  Modelled from the spec: \<^verbatim>\<open>pm_runtime_suspended\<close> and \<^verbatim>\<open>pm_runtime_enabled\<close>,
  defined outside domain.c.  The spec has devices that are runtime-suspended or not and
  runtime PM that is enabled or not; the two answers are fields of the device.
\<close>

definition pm_runtime_suspended :: "device \<Rightarrow> bool" where
  "pm_runtime_suspended dev = runtime_suspended dev"

definition pm_runtime_enabled :: "device \<Rightarrow> bool" where
  "pm_runtime_enabled dev = runtime_enabled dev"

text \<open>
  The walk over \<^verbatim>\<open>genpd->dev_list\<close> in \<^verbatim>\<open>genpd_poweroff\<close>: \<open>None\<close> when the
  loop returns \<^verbatim>\<open>-EBUSY\<close>, otherwise the final value of \<^verbatim>\<open>not_suspended\<close>.
\<close>

fun poweroff_walk :: "state \<Rightarrow> devid list \<Rightarrow> 32 word \<Rightarrow> 32 word option" where
  "poweroff_walk s [] not_suspended = Some not_suspended"
| "poweroff_walk s (dev # rest) not_suspended =
     (if above_none (dev_pm_qos_flags (devices s dev)
            {PM_QOS_FLAG_NO_POWER_OFF, PM_QOS_FLAG_REMOTE_WAKEUP})
      then None
      else poweroff_walk s rest
             (if \<not> pm_runtime_suspended (devices s dev) \<or> irq_safe (devices s dev)
              then not_suspended + 1 else not_suspended))"

text \<open>The governor check of \<^verbatim>\<open>genpd_poweroff\<close>: whether the governor vetoes.\<close>

definition gov_power_down_veto :: "domid \<Rightarrow> state \<Rightarrow> bool \<times> state" where
  "gov_power_down_veto genpd s =
     (case gov (domains s genpd) of
        None \<Rightarrow> (False, s)
      | Some g \<Rightarrow>
          (case power_down_ok g of
             None \<Rightarrow> (False, s)
           | Some f \<Rightarrow> (\<not> f genpd, called (Cb_power_down_ok genpd) s)))"

definition genpd_poweroff :: "domid \<Rightarrow> bool \<Rightarrow> state \<Rightarrow> int \<times> state" where
  "genpd_poweroff genpd is_async s =
     (if status (domains s genpd) = GPD_STATE_POWER_OFF \<or> 0 < prepared_count (domains s genpd)
      then (0, s)
      else if 0 < atomic_read (sd_count (domains s genpd)) then (- EBUSY, s)
      else
        case poweroff_walk s (dev_list (domains s genpd)) 0 of
          None \<Rightarrow> (- EBUSY, s)
        | Some not_suspended \<Rightarrow>
            if 1 < not_suspended \<or> (not_suspended = 1 \<and> is_async) then (- EBUSY, s)
            else
              let (veto, s1) = gov_power_down_veto genpd s
              in if veto then (- EAGAIN, s1)
                 else if power_off (domains s1 genpd) \<noteq> None
                         \<and> 0 < atomic_read (sd_count (domains s1 genpd))
                 then (- EBUSY, s1)
                 else
                   let (ret, s2) =
                         (if power_off (domains s1 genpd) \<noteq> None
                          then genpd_power_off genpd True s1 else (0, s1))
                   in if ret \<noteq> 0 then (ret, s2)
                      else
                        let s3 = upd_domain genpd (\<lambda>d. d\<lparr>status := GPD_STATE_POWER_OFF\<rparr>) s2
                        in (0, fold dec_and_queue (slave_links (domains s3 genpd)) s3))"

definition genpd_power_off_work_fn :: "domid \<Rightarrow> state \<Rightarrow> state option" where
  "genpd_power_off_work_fn genpd s =
     (case mutex_lock genpd s of
        None \<Rightarrow> None
      | Some s1 \<Rightarrow> Some (mutex_unlock genpd (snd (genpd_poweroff genpd True s1))))"

subsection \<open>Runtime PM\<close>

text \<open>
  \<^verbatim>\<open>td\<close> points into the device's \<^verbatim>\<open>domain_data\<close>; the update of a latency value
  dereferences it.
\<close>

definition upd_td :: "devid \<Rightarrow> (gpd_timing_data \<Rightarrow> gpd_timing_data) \<Rightarrow> state \<Rightarrow> state" where
  "upd_td dev f s =
     upd_device dev (\<lambda>d. d\<lparr>subsys_data :=
       map_option (\<lambda>psd. psd\<lparr>domain_data :=
         map_option (\<lambda>gd. gd\<lparr>td := f (td gd)\<rparr>) (domain_data psd)\<rparr>) (subsys_data d)\<rparr>) s"

definition dev_gpd_data :: "state \<Rightarrow> devid \<Rightarrow> generic_pm_domain_data option" where
  "dev_gpd_data s dev =
     (case subsys_data (devices s dev) of None \<Rightarrow> None | Some psd \<Rightarrow> domain_data psd)"

text \<open>
  The two blocks that update a latency value when the measured time exceeds it.
\<close>

definition update_suspend_latency :: "domid \<Rightarrow> devid \<Rightarrow> int \<Rightarrow> state \<Rightarrow> state option" where
  "update_suspend_latency genpd dev time_start s =
     (let (now, s') = ktime_get s;
          elapsed_ns = now - time_start
      in (case dev_gpd_data s' dev of
            None \<Rightarrow> None
          | Some gd \<Rightarrow>
              (if suspend_latency_ns (td gd) < elapsed_ns
               then Some (upd_td dev
                      (\<lambda>t. t\<lparr>suspend_latency_ns := elapsed_ns, constraint_changed := True\<rparr>)
                      (upd_domain genpd (\<lambda>d. d\<lparr>max_off_time_changed := True\<rparr>) s'))
               else Some s')))"

definition update_resume_latency :: "domid \<Rightarrow> devid \<Rightarrow> int \<Rightarrow> state \<Rightarrow> state option" where
  "update_resume_latency genpd dev time_start s =
     (let (now, s') = ktime_get s;
          elapsed_ns = now - time_start
      in (case dev_gpd_data s' dev of
            None \<Rightarrow> None
          | Some gd \<Rightarrow>
              (if resume_latency_ns (td gd) < elapsed_ns
               then Some (upd_td dev
                      (\<lambda>t. t\<lparr>resume_latency_ns := elapsed_ns, constraint_changed := True\<rparr>)
                      (upd_domain genpd (\<lambda>d. d\<lparr>max_off_time_changed := True\<rparr>) s'))
               else Some s')))"

text \<open>The governor's \<^verbatim>\<open>stop_ok\<close> check of \<^verbatim>\<open>pm_genpd_runtime_suspend\<close>.\<close>

definition gov_stop_veto :: "domid \<Rightarrow> devid \<Rightarrow> bool \<Rightarrow> state \<Rightarrow> bool \<times> state" where
  "gov_stop_veto genpd dev runtime_pm s =
     (case (case gov (domains s genpd) of None \<Rightarrow> None | Some g \<Rightarrow> stop_ok g) of
        None \<Rightarrow> (False, s)
      | Some f \<Rightarrow> (if runtime_pm then (\<not> f dev, called (Cb_stop_ok dev) s) else (False, s)))"

text \<open>
  \<^verbatim>\<open>pm_genpd_runtime_suspend\<close>.  Its first statement dereferences
  \<^verbatim>\<open>dev->power.subsys_data\<close>.
\<close>

definition pm_genpd_runtime_suspend :: "devid \<Rightarrow> state \<Rightarrow> (int \<times> state) option" where
  "pm_genpd_runtime_suspend dev s =
     (if subsys_data (devices s dev) = None then None
      else
        (let runtime_pm = pm_runtime_enabled (devices s dev)
         in (case dev_to_genpd s dev of
               None \<Rightarrow> Some (- EINVAL, s)
             | Some genpd \<Rightarrow>
                 (let (veto, s0) = gov_stop_veto genpd dev runtime_pm s
                  in if veto then Some (- EBUSY, s0)
                     else
                       (let (time_start, s1) = (if runtime_pm then ktime_get s0 else (0, s0));
                            (ret, s2) = genpd_save_dev genpd dev s1
                        in if ret \<noteq> 0 then Some (ret, s2)
                           else
                             (let (ret, s3) = genpd_stop_dev genpd dev s2
                              in if ret \<noteq> 0
                                 then Some (ret, snd (genpd_restore_dev genpd dev s3))
                                 else
                                   (case (if runtime_pm
                                          then update_suspend_latency genpd dev time_start s3
                                          else Some s3) of
                                      None \<Rightarrow> None
                                    | Some s4 \<Rightarrow>
                                        (if irq_safe (devices s4 dev) then Some (0, s4)
                                         else
                                           (case mutex_lock genpd s4 of
                                              None \<Rightarrow> None
                                            | Some s5 \<Rightarrow>
                                                Some (0, mutex_unlock genpd
                                                  (snd (genpd_poweroff genpd False s5))))))))))))"

text \<open>
  \<^verbatim>\<open>pm_genpd_runtime_resume\<close>; the first argument bounds the depth of the walk through
  the masters.
\<close>

definition pm_genpd_runtime_resume :: "nat \<Rightarrow> devid \<Rightarrow> state \<Rightarrow> (int \<times> state) option" where
  "pm_genpd_runtime_resume n dev s =
     (if subsys_data (devices s dev) = None then None
      else
        (let runtime_pm = pm_runtime_enabled (devices s dev)
         in (case dev_to_genpd s dev of
               None \<Rightarrow> Some (- EINVAL, s)
             | Some genpd \<Rightarrow>
                 (let timed = \<not> irq_safe (devices s dev)
                  in (case (if irq_safe (devices s dev) then Some (0, s)
                            else
                              (case mutex_lock genpd s of
                                 None \<Rightarrow> None
                               | Some s1 \<Rightarrow>
                                   (case dunder_genpd_poweron n genpd s1 of
                                      None \<Rightarrow> None
                                    | Some (ret, s2) \<Rightarrow> Some (ret, mutex_unlock genpd s2)))) of
                        None \<Rightarrow> None
                      | Some (ret, s3) \<Rightarrow>
                          (if ret \<noteq> 0 then Some (ret, s3)
                           else
                             (let (time_start, s4) =
                                    (if timed \<and> runtime_pm then ktime_get s3 else (0, s3));
                                  s5 = snd (genpd_start_dev genpd dev s4);
                                  s6 = snd (genpd_restore_dev genpd dev s5)
                              in if timed \<and> runtime_pm
                                 then map_option (Pair 0)
                                        (update_resume_latency genpd dev time_start s6)
                                 else Some (0, s6))))))))"


subsection \<open>System sleep: prepare\<close>









subsection \<open>Adding and removing devices\<close>

text \<open>
  Modelled from the spec: \<^verbatim>\<open>spin_lock_irq\<close> and \<^verbatim>\<open>spin_unlock_irq\<close> on the
  power spinlock of a device, defined outside domain.c.  Taking a spinlock that is held
  never returns.
\<close>

definition spin_lock_irq :: "devid \<Rightarrow> state \<Rightarrow> state option" where
  "spin_lock_irq dev s =
     (if power_lock (devices s dev) then None
      else Some (upd_device dev (\<lambda>d. d\<lparr>power_lock := True\<rparr>) s))"

definition spin_unlock_irq :: "devid \<Rightarrow> state \<Rightarrow> state" where
  "spin_unlock_irq dev s = upd_device dev (\<lambda>d. d\<lparr>power_lock := False\<rparr>) s"

text \<open>
  Modelled from the spec: \<^verbatim>\<open>dev_pm_get_subsys_data\<close> and
  \<^verbatim>\<open>dev_pm_put_subsys_data\<close>, defined outside domain.c.  The spec keeps the binding
  of a device in \<^verbatim>\<open>dev.power.subsys_data\<close>; the model counts the references to that
  object, creates it with the first reference (an allocation, which may fail) and drops
  it with the last.
\<close>

definition dev_pm_get_subsys_data :: "devid \<Rightarrow> state \<Rightarrow> int \<times> state" where
  "dev_pm_get_subsys_data dev s =
     (let (ok, s1) = kzalloc s
      in if \<not> ok then (- ENOMEM, s1)
         else (0, upd_device dev
                    (\<lambda>d. d\<lparr>subsys_data :=
                       (case subsys_data d of
                          None \<Rightarrow> Some \<lparr>refcount = 1, domain_data = None\<rparr>
                        | Some psd \<Rightarrow> Some (psd\<lparr>refcount := refcount psd + 1\<rparr>))\<rparr>) s1))"

definition dev_pm_put_subsys_data :: "devid \<Rightarrow> state \<Rightarrow> state" where
  "dev_pm_put_subsys_data dev s =
     upd_device dev
       (\<lambda>d. d\<lparr>subsys_data :=
          (case subsys_data d of
             None \<Rightarrow> None
           | Some psd \<Rightarrow>
               (if refcount psd - 1 = 0 then None
                else Some (psd\<lparr>refcount := refcount psd - 1\<rparr>)))\<rparr>) s"

text \<open>
  Modelled from the spec: \<^verbatim>\<open>dev_pm_qos_add_notifier\<close> and
  \<^verbatim>\<open>dev_pm_qos_remove_notifier\<close>, defined outside domain.c.  The QoS observer of the
  binding is registered with the device's PM-QoS source or it is not.
\<close>

definition dev_pm_qos_add_notifier :: "devid \<Rightarrow> state \<Rightarrow> state" where
  "dev_pm_qos_add_notifier dev s = upd_device dev (\<lambda>d. d\<lparr>qos_nb_registered := True\<rparr>) s"

definition dev_pm_qos_remove_notifier :: "devid \<Rightarrow> state \<Rightarrow> state" where
  "dev_pm_qos_remove_notifier dev s = upd_device dev (\<lambda>d. d\<lparr>qos_nb_registered := False\<rparr>) s"

definition zero_td :: gpd_timing_data where
  "zero_td = \<lparr>suspend_latency_ns = 0, resume_latency_ns = 0, effective_constraint_ns = 0,
      constraint_changed = False, cached_stop_ok = False\<rparr>"

text \<open>
  \<^verbatim>\<open>genpd_alloc_dev_data\<close>: \<open>Inl\<close> is the error pointer.  On success the new
  \<^verbatim>\<open>gpd_data\<close> is what \<^verbatim>\<open>domain_data\<close> of the device points to.
\<close>

definition genpd_alloc_dev_data ::
  "devid \<Rightarrow> domid \<Rightarrow> gpd_timing_data option \<Rightarrow> state \<Rightarrow> ((int + unit) \<times> state) option" where
  "genpd_alloc_dev_data dev genpd td_arg s =
     (let (ret, s1) = dev_pm_get_subsys_data dev s
      in if ret \<noteq> 0 then Some (Inl ret, s1)
         else
           (let (ok, s2) = kzalloc s1
            in if \<not> ok then Some (Inl (- ENOMEM), dev_pm_put_subsys_data dev s2)
               else
                 (let gpd_data =
                        \<lparr>base_dev = dev,
                         td = (case td_arg of None \<Rightarrow> zero_td | Some t \<Rightarrow> t)
                                \<lparr>constraint_changed := True,
                                 effective_constraint_ns := no_constraint_ns s2\<rparr>\<rparr>
                  in (case spin_lock_irq dev s2 of
                        None \<Rightarrow> None
                      | Some s3 \<Rightarrow>
                          (case subsys_data (devices s3 dev) of
                             None \<Rightarrow> None
                           | Some psd \<Rightarrow>
                               (if domain_data psd \<noteq> None
                                then Some (Inl (- EINVAL),
                                       dev_pm_put_subsys_data dev (spin_unlock_irq dev s3))
                                else Some (Inr (),
                                       spin_unlock_irq dev
                                         (upd_device dev
                                            (\<lambda>d. d\<lparr>subsys_data :=
                                               Some (psd\<lparr>domain_data := Some gpd_data\<rparr>)\<rparr>)
                                            s3))))))))"

definition genpd_free_dev_data :: "devid \<Rightarrow> state \<Rightarrow> state option" where
  "genpd_free_dev_data dev s =
     (case spin_lock_irq dev s of
        None \<Rightarrow> None
      | Some s1 \<Rightarrow>
          (case subsys_data (devices s1 dev) of
             None \<Rightarrow> None
           | Some psd \<Rightarrow>
               Some (dev_pm_put_subsys_data dev
                       (spin_unlock_irq dev
                          (upd_device dev
                             (\<lambda>d. d\<lparr>subsys_data := Some (psd\<lparr>domain_data := None\<rparr>)\<rparr>) s1)))))"

text \<open>
  \<^verbatim>\<open>__pm_genpd_add_device\<close>.  A pointer argument is \<open>None\<close> when it is NULL or an
  error pointer.
\<close>

definition dunder_pm_genpd_add_device ::
  "domid option \<Rightarrow> devid option \<Rightarrow> gpd_timing_data option \<Rightarrow> state \<Rightarrow> (int \<times> state) option" where
  "dunder_pm_genpd_add_device genpd_arg dev_arg td_arg s =
     (case (genpd_arg, dev_arg) of
        (Some genpd, Some dev) \<Rightarrow>
          (case genpd_alloc_dev_data dev genpd td_arg s of
             None \<Rightarrow> None
           | Some (Inl err, s1) \<Rightarrow> Some (err, s1)
           | Some (Inr _, s1) \<Rightarrow>
               (case mutex_lock genpd s1 of
                  None \<Rightarrow> None
                | Some s2 \<Rightarrow>
                    (let (ret, s3) =
                           (if 0 < prepared_count (domains s2 genpd) then (- EAGAIN, s2)
                            else
                              (let (ret, s2') =
                                     (case attach_dev (domains s2 genpd) of
                                        None \<Rightarrow> (0, s2)
                                      | Some f \<Rightarrow> (f genpd dev, called (Cb_attach_dev genpd dev) s2))
                               in if ret \<noteq> 0 then (ret, s2')
                                  else (0,
                                    upd_domain genpd
                                      (\<lambda>d. d\<lparr>device_count := device_count d + 1,
                                             max_off_time_changed := True,
                                             dev_list := dev_list d @ [dev]\<rparr>)
                                      (upd_device dev (\<lambda>d. d\<lparr>pm_domain := Some genpd\<rparr>) s2'))));
                         s4 = mutex_unlock genpd s3
                     in if ret \<noteq> 0
                        then map_option (Pair ret) (genpd_free_dev_data dev s4)
                        else Some (ret, dev_pm_qos_add_notifier dev s4))))
      | _ \<Rightarrow> Some (- EINVAL, s))"

text \<open>
  \<^verbatim>\<open>pm_genpd_lookup_dev\<close>: the registry is searched under its mutex, which is free
  again on return.
\<close>

definition pm_genpd_lookup_dev :: "devid option \<Rightarrow> state \<Rightarrow> (domid option) option" where
  "pm_genpd_lookup_dev dev_arg s =
     (case dev_arg of
        None \<Rightarrow> Some None
      | Some dev \<Rightarrow>
          (case pm_domain (devices s dev) of
             None \<Rightarrow> Some None
           | Some pd \<Rightarrow>
               (if gpd_list_lock s then None
                else Some (find (\<lambda>gpd. gpd = pd) (gpd_list s)))))"

definition pm_genpd_remove_device ::
  "domid option \<Rightarrow> devid option \<Rightarrow> state \<Rightarrow> (int \<times> state) option" where
  "pm_genpd_remove_device genpd_arg dev_arg s =
     (case genpd_arg of
        None \<Rightarrow> Some (- EINVAL, s)
      | Some genpd \<Rightarrow>
          (case pm_genpd_lookup_dev dev_arg s of
             None \<Rightarrow> None
           | Some found \<Rightarrow>
               (if found \<noteq> Some genpd then Some (- EINVAL, s)
                else
                  (case dev_arg of
                     None \<Rightarrow> None
                   | Some dev \<Rightarrow>
                       (case subsys_data (devices s dev) of
                          None \<Rightarrow> None
                        | Some psd \<Rightarrow>
                            (case mutex_lock genpd (dev_pm_qos_remove_notifier dev s) of
                               None \<Rightarrow> None
                             | Some s2 \<Rightarrow>
                                 (if 0 < prepared_count (domains s2 genpd)
                                  then Some (- EAGAIN,
                                         dev_pm_qos_add_notifier dev (mutex_unlock genpd s2))
                                  else
                                    (case domain_data psd of
                                       None \<Rightarrow> None
                                     | Some pdd \<Rightarrow>
                                         (let s3 = upd_domain genpd
                                                     (\<lambda>d. d\<lparr>device_count := device_count d - 1,
                                                            max_off_time_changed := True\<rparr>) s2;
                                              s4 = (case detach_dev (domains s3 genpd) of
                                                      None \<Rightarrow> s3
                                                    | Some f \<Rightarrow> called (Cb_detach_dev genpd dev) s3);
                                              s5 = upd_device dev (\<lambda>d. d\<lparr>pm_domain := None\<rparr>) s4;
                                              s6 = upd_domain genpd
                                                     (\<lambda>d. d\<lparr>dev_list := remove1 dev (dev_list d)\<rparr>) s5
                                          in map_option (Pair 0)
                                               (genpd_free_dev_data dev
                                                  (mutex_unlock genpd s6)))))))))))"

subsection \<open>Adding and removing subdomains\<close>

definition pm_genpd_add_subdomain ::
  "domid option \<Rightarrow> domid option \<Rightarrow> state \<Rightarrow> (int \<times> state) option" where
  "pm_genpd_add_subdomain genpd_arg subdomain_arg s =
     (case (genpd_arg, subdomain_arg) of
        (Some genpd, Some subdomain) \<Rightarrow>
          (if genpd = subdomain then Some (- EINVAL, s)
           else
             (let (ok, s0) = kzalloc s
              in if \<not> ok then Some (- ENOMEM, s0)
                 else
                   (case mutex_lock genpd s0 of
                      None \<Rightarrow> None
                    | Some s1 \<Rightarrow>
                        (case mutex_lock subdomain s1 of
                           None \<Rightarrow> None
                         | Some s2 \<Rightarrow>
                             (let (ret, s3) =
                                    (if status (domains s2 genpd) = GPD_STATE_POWER_OFF
                                        \<and> status (domains s2 subdomain) \<noteq> GPD_STATE_POWER_OFF
                                     then (- EINVAL, s2)
                                     else if list_ex (\<lambda>itr. slave itr = subdomain \<and> master itr = genpd)
                                               (master_links (domains s2 genpd))
                                     then (- EINVAL, s2)
                                     else
                                       (let link = \<lparr>master = genpd, slave = subdomain\<rparr>;
                                            sa = upd_domain genpd
                                                   (\<lambda>d. d\<lparr>master_links := master_links d @ [link]\<rparr>) s2;
                                            sb = upd_domain subdomain
                                                   (\<lambda>d. d\<lparr>slave_links := slave_links d @ [link]\<rparr>) sa
                                        in (0, if status (domains sb subdomain) \<noteq> GPD_STATE_POWER_OFF
                                               then genpd_sd_counter_inc genpd sb else sb)))
                              in Some (ret, mutex_unlock genpd (mutex_unlock subdomain s3)))))))
      | _ \<Rightarrow> Some (- EINVAL, s))"

definition pm_genpd_remove_subdomain ::
  "domid option \<Rightarrow> domid option \<Rightarrow> state \<Rightarrow> (int \<times> state) option" where
  "pm_genpd_remove_subdomain genpd_arg subdomain_arg s =
     (case (genpd_arg, subdomain_arg) of
        (Some genpd, Some subdomain) \<Rightarrow>
          (case mutex_lock genpd s of
             None \<Rightarrow> None
           | Some s1 \<Rightarrow>
               (if master_links (domains s1 subdomain) \<noteq> [] \<or> device_count (domains s1 subdomain) \<noteq> 0
                then Some (- EBUSY, mutex_unlock genpd s1)
                else
                  (case find (\<lambda>link. slave link = subdomain) (master_links (domains s1 genpd)) of
                     None \<Rightarrow> Some (- EINVAL, mutex_unlock genpd s1)
                   | Some link \<Rightarrow>
                       (case mutex_lock subdomain s1 of
                          None \<Rightarrow> None
                        | Some s2 \<Rightarrow>
                            (let s3 = upd_domain genpd
                                        (\<lambda>d. d\<lparr>master_links := remove1 link (master_links d)\<rparr>) s2;
                                 s4 = upd_domain (slave link)
                                        (\<lambda>d. d\<lparr>slave_links := remove1 link (slave_links d)\<rparr>) s3;
                                 s5 = (if status (domains s4 subdomain) \<noteq> GPD_STATE_POWER_OFF
                                       then snd (genpd_sd_counter_dec genpd s4) else s4)
                             in Some (0, mutex_unlock genpd (mutex_unlock subdomain s5)))))))
      | _ \<Rightarrow> Some (- EINVAL, s))"


subsection \<open>Initialisation\<close>

definition pm_genpd_default_save_state :: "devid \<Rightarrow> device \<Rightarrow> int" where
  "pm_genpd_default_save_state dev d =
     (let cb = (case type_pm d of
                  Some pm \<Rightarrow> runtime_suspend pm
                | None \<Rightarrow>
                    (case class_pm d of
                       Some pm \<Rightarrow> runtime_suspend pm
                     | None \<Rightarrow>
                         (case bus_pm d of Some pm \<Rightarrow> runtime_suspend pm | None \<Rightarrow> None)));
          cb' = (if cb = None
                 then (case driver_pm d of Some pm \<Rightarrow> runtime_suspend pm | None \<Rightarrow> None)
                 else cb)
      in (case cb' of None \<Rightarrow> 0 | Some f \<Rightarrow> f dev))"

definition pm_genpd_default_restore_state :: "devid \<Rightarrow> device \<Rightarrow> int" where
  "pm_genpd_default_restore_state dev d =
     (let cb = (case type_pm d of
                  Some pm \<Rightarrow> runtime_resume pm
                | None \<Rightarrow>
                    (case class_pm d of
                       Some pm \<Rightarrow> runtime_resume pm
                     | None \<Rightarrow>
                         (case bus_pm d of Some pm \<Rightarrow> runtime_resume pm | None \<Rightarrow> None)));
          cb' = (if cb = None
                 then (case driver_pm d of Some pm \<Rightarrow> runtime_resume pm | None \<Rightarrow> None)
                 else cb)
      in (case cb' of None \<Rightarrow> 0 | Some f \<Rightarrow> f dev))"

text \<open>
  \<^verbatim>\<open>pm_genpd_init\<close>.  \<^verbatim>\<open>pm_clk_suspend\<close> and \<^verbatim>\<open>pm_clk_resume\<close> are defined
  outside domain.c and are parameters.  The table \<^verbatim>\<open>domain.ops\<close> always holds the
  functions of this file and is not part of the store.  \<^verbatim>\<open>INIT_WORK\<close> leaves the work
  item not pending.
\<close>

definition pm_genpd_init ::
  "(devid \<Rightarrow> device \<Rightarrow> int) \<Rightarrow> (devid \<Rightarrow> device \<Rightarrow> int) \<Rightarrow>
   domid option \<Rightarrow> dev_power_governor option \<Rightarrow> bool \<Rightarrow> state \<Rightarrow> state option" where
  "pm_genpd_init pm_clk_suspend pm_clk_resume genpd_arg gov_arg is_off s =
     (case genpd_arg of
        None \<Rightarrow> Some s
      | Some genpd \<Rightarrow>
          (let s1 = upd_domain genpd
                      (\<lambda>d. d\<lparr>master_links := [], slave_links := [], dev_list := [],
                             lock := False, gov := gov_arg, sd_count := 0,
                             status := (if is_off then GPD_STATE_POWER_OFF else GPD_STATE_ACTIVE),
                             device_count := 0, max_off_time_ns := - 1,
                             max_off_time_changed := True,
                             dev_ops := (dev_ops d)
                               \<lparr>save_state := Some pm_genpd_default_save_state,
                                restore_state := Some pm_genpd_default_restore_state\<rparr>\<rparr>)
                      (s\<lparr>pm_wq := removeAll genpd (pm_wq s)\<rparr>);
               s2 = (if pm_clk_flag (domains s1 genpd)
                     then upd_domain genpd
                            (\<lambda>d. d\<lparr>dev_ops := (dev_ops d)
                               \<lparr>stop := Some pm_clk_suspend, start := Some pm_clk_resume\<rparr>\<rparr>) s1
                     else s1)
           in if gpd_list_lock s2 then None
              else Some (s2\<lparr>gpd_list := genpd # gpd_list s2\<rparr>)))"

subsection \<open>Synchronous traversals of the noirq phases\<close>

fun sync_poweroff_masters ::
  "(domid \<Rightarrow> state \<Rightarrow> state option) \<Rightarrow> gpd_link list \<Rightarrow> state \<Rightarrow> state option" where
  "sync_poweroff_masters sync [] s = Some s"
| "sync_poweroff_masters sync (link # rest) s =
     (case sync (master link) (snd (genpd_sd_counter_dec (master link) s)) of
        None \<Rightarrow> None
      | Some s' \<Rightarrow> sync_poweroff_masters sync rest s')"

definition pm_genpd_sync_poweroff_body ::
  "(domid \<Rightarrow> state \<Rightarrow> state option) \<Rightarrow> bool \<Rightarrow> domid \<Rightarrow> state \<Rightarrow> state option" where
  "pm_genpd_sync_poweroff_body sync timed genpd s =
     (if status (domains s genpd) = GPD_STATE_POWER_OFF then Some s
      else if suspended_count (domains s genpd) \<noteq> device_count (domains s genpd)
              \<or> 0 < atomic_read (sd_count (domains s genpd))
      then Some s
      else
        (let s1 = snd (genpd_power_off genpd timed s);
             s2 = upd_domain genpd (\<lambda>d. d\<lparr>status := GPD_STATE_POWER_OFF\<rparr>) s1
         in sync_poweroff_masters sync (slave_links (domains s2 genpd)) s2))"

text \<open>
  \<^verbatim>\<open>pm_genpd_sync_poweroff\<close> and \<^verbatim>\<open>pm_genpd_sync_poweron\<close>; the first argument is
  the number of nested calls that the stack has room for.
\<close>

primrec pm_genpd_sync_poweroff :: "nat \<Rightarrow> bool \<Rightarrow> domid \<Rightarrow> state \<Rightarrow> state option" where
  "pm_genpd_sync_poweroff 0 timed genpd s =
     pm_genpd_sync_poweroff_body (\<lambda>_ _. None) timed genpd s"
| "pm_genpd_sync_poweroff (Suc n) timed genpd s =
     pm_genpd_sync_poweroff_body (pm_genpd_sync_poweroff n timed) timed genpd s"

fun sync_poweron_masters ::
  "(domid \<Rightarrow> state \<Rightarrow> state option) \<Rightarrow> gpd_link list \<Rightarrow> state \<Rightarrow> state option" where
  "sync_poweron_masters sync [] s = Some s"
| "sync_poweron_masters sync (link # rest) s =
     (case sync (master link) s of
        None \<Rightarrow> None
      | Some s' \<Rightarrow> sync_poweron_masters sync rest (genpd_sd_counter_inc (master link) s'))"

definition pm_genpd_sync_poweron_body ::
  "(domid \<Rightarrow> state \<Rightarrow> state option) \<Rightarrow> bool \<Rightarrow> domid \<Rightarrow> state \<Rightarrow> state option" where
  "pm_genpd_sync_poweron_body sync timed genpd s =
     (if status (domains s genpd) = GPD_STATE_ACTIVE then Some s
      else
        (case sync_poweron_masters sync (slave_links (domains s genpd)) s of
           None \<Rightarrow> None
         | Some s1 \<Rightarrow>
             Some (upd_domain genpd (\<lambda>d. d\<lparr>status := GPD_STATE_ACTIVE\<rparr>)
                     (snd (genpd_power_on genpd timed s1)))))"

primrec pm_genpd_sync_poweron :: "nat \<Rightarrow> bool \<Rightarrow> domid \<Rightarrow> state \<Rightarrow> state option" where
  "pm_genpd_sync_poweron 0 timed genpd s =
     pm_genpd_sync_poweron_body (\<lambda>_ _. None) timed genpd s"
| "pm_genpd_sync_poweron (Suc n) timed genpd s =
     pm_genpd_sync_poweron_body (pm_genpd_sync_poweron n timed) timed genpd s"

subsection \<open>Sequences of operations\<close>

text \<open>
  The operations that write \<^verbatim>\<open>sd_count\<close>, directly or through the two counter
  functions.  The power-off operation is \<^verbatim>\<open>genpd_poweroff\<close> itself, whose caller
  holds the mutex.
\<close>

datatype genpd_op =
    Add_subdomain "domid option" "domid option"
  | Remove_subdomain "domid option" "domid option"
  | Poweron domid
  | Poweroff domid bool
  | Sync_poweron domid bool
  | Sync_poweroff domid bool
  | Init "devid \<Rightarrow> device \<Rightarrow> int" "devid \<Rightarrow> device \<Rightarrow> int" "domid option"
      "dev_power_governor option" bool

fun step :: "nat \<Rightarrow> genpd_op \<Rightarrow> state \<Rightarrow> state option" where
  "step n (Add_subdomain m sd) s = map_option snd (pm_genpd_add_subdomain m sd s)"
| "step n (Remove_subdomain m sd) s = map_option snd (pm_genpd_remove_subdomain m sd s)"
| "step n (Poweron g) s = map_option snd (genpd_poweron n g s)"
| "step n (Poweroff g is_async) s = Some (snd (genpd_poweroff g is_async s))"
| "step n (Sync_poweron g timed) s = pm_genpd_sync_poweron n timed g s"
| "step n (Sync_poweroff g timed) s = pm_genpd_sync_poweroff n timed g s"
| "step n (Init clk_suspend clk_resume g gv is_off) s =
     pm_genpd_init clk_suspend clk_resume g gv is_off s"

fun run :: "nat \<Rightarrow> genpd_op list \<Rightarrow> state \<Rightarrow> state option" where
  "run n [] s = Some s"
| "run n (op # ops) s = (case step n op s of None \<Rightarrow> None | Some s' \<Rightarrow> run n ops s')"

text \<open>The four kinds of operation on the graph of domains.\<close>

fun dag_op :: "genpd_op \<Rightarrow> bool" where
  "dag_op (Add_subdomain m sd) = True"
| "dag_op (Remove_subdomain m sd) = True"
| "dag_op (Poweron g) = True"
| "dag_op (Poweroff g is_async) = True"
| "dag_op (Sync_poweron g timed) = False"
| "dag_op (Sync_poweroff g timed) = False"
| "dag_op (Init clk_suspend clk_resume g gv is_off) = False"

subsection \<open>Concrete stores\<close>

definition ops0 :: gpd_dev_ops where
  "ops0 = \<lparr>start = None, stop = None, save_state = None, restore_state = None,
      active_wakeup = None\<rparr>"

definition dom0 :: generic_pm_domain where
  "dom0 = \<lparr>gov = None, status = GPD_STATE_POWER_OFF, device_count = 0, suspended_count = 0,
      prepared_count = 0, suspend_power_off = False, sd_count = 0, power_on_latency_ns = 0,
      power_off_latency_ns = 0, max_off_time_ns = - 1, max_off_time_changed = True,
      master_links = [], slave_links = [], dev_list = [], lock = False, power_on = None,
      power_off = None, dev_ops = ops0, attach_dev = None, detach_dev = None,
      pm_clk_flag = False\<rparr>"

definition dev0 :: device where
  "dev0 = \<lparr>pm_domain = None, subsys_data = None, power_lock = False, irq_safe = False,
      wakeup_path = False, can_wakeup = False, may_wakeup = False, runtime_suspended = True,
      runtime_enabled = True, qos_flags = {}, qos_nb_registered = False, type_pm = None,
      class_pm = None, bus_pm = None, driver_pm = None\<rparr>"

text \<open>
  A store of powered-off domains without links and of unbound devices, with a clock that
  advances by ten nanoseconds per reading and allocations that succeed.
\<close>

definition state0 :: state where
  "state0 = \<lparr>domains = (\<lambda>_. dom0), devices = (\<lambda>_. dev0), gpd_list = [],
      gpd_list_lock = False, pm_wq = [], calls = [], clock = (\<lambda>n. 10 * int n), ticks = 0,
      alloc_ok = (\<lambda>_. True), allocs = 0, warnings = 0, no_constraint_ns = - 1\<rparr>"

text \<open>Stores for the latency statistics: a provider callback that fails.\<close>

definition power_off_fails :: state where
  "power_off_fails =
     upd_domain 0 (\<lambda>d. d\<lparr>status := GPD_STATE_ACTIVE, power_off := Some (\<lambda>_. - 5)\<rparr>) state0"

definition power_off_busy :: state where
  "power_off_busy =
     upd_domain 0 (\<lambda>d. d\<lparr>status := GPD_STATE_ACTIVE, power_off := Some (\<lambda>_. - EBUSY)\<rparr>) state0"

definition power_on_fails :: state where
  "power_on_fails = upd_domain 0 (\<lambda>d. d\<lparr>power_on := Some (\<lambda>_. - 5)\<rparr>) state0"

text \<open>
  The notions in which the refusals of \<^verbatim>\<open>genpd_poweroff\<close> are stated: a device whose
  PM-QoS flags forbid power-off, a device that counts as not suspended, and the number of
  the latter among the devices of a domain.
\<close>

definition qos_forbids_off :: "device \<Rightarrow> bool" where
  "qos_forbids_off d =
     (PM_QOS_FLAG_NO_POWER_OFF \<in> qos_flags d \<or> PM_QOS_FLAG_REMOTE_WAKEUP \<in> qos_flags d)"

definition counts_not_suspended :: "device \<Rightarrow> bool" where
  "counts_not_suspended d = (\<not> pm_runtime_suspended d \<or> irq_safe d)"

definition not_suspended_devices :: "state \<Rightarrow> domid \<Rightarrow> nat" where
  "not_suspended_devices s g =
     length (filter (\<lambda>dev. counts_not_suspended (devices s dev)) (dev_list (domains s g)))"

text \<open>Stores for the refusals: domain 0 is active with devices 0 and 1 attached.\<close>

definition two_devices :: state where
  "two_devices =
     upd_domain 0 (\<lambda>d. d\<lparr>status := GPD_STATE_ACTIVE, dev_list := [0, 1], device_count := 2\<rparr>)
       (upd_device 0 (\<lambda>d. d\<lparr>pm_domain := Some 0, runtime_suspended := False\<rparr>)
          (upd_device 1 (\<lambda>d. d\<lparr>pm_domain := Some 0, runtime_suspended := False\<rparr>) state0))"

text \<open>Domain 0 active, without devices, subdomains or callbacks; and the same powered off.\<close>

definition idle_active :: state where
  "idle_active = upd_domain 0 (\<lambda>d. d\<lparr>status := GPD_STATE_ACTIVE\<rparr>) state0"

definition idle_off :: state where
  "idle_off = upd_domain 0 (\<lambda>d. d\<lparr>status := GPD_STATE_POWER_OFF\<rparr>) idle_active"

text \<open>
  Device 0 bound to the active domain 0, whose \<^verbatim>\<open>stop\<close> callback fails with -5 and
  whose other device callbacks succeed.
\<close>

definition stop_fails :: state where
  "stop_fails =
     upd_domain 0
       (\<lambda>d. d\<lparr>status := GPD_STATE_ACTIVE, dev_list := [0], device_count := 1,
              dev_ops := \<lparr>start = Some (\<lambda>_ _. 0), stop = Some (\<lambda>_ _. - 5),
                save_state = Some (\<lambda>_ _. 0), restore_state = Some (\<lambda>_ _. 0),
                active_wakeup = None\<rparr>\<rparr>)
       (upd_device 0
          (\<lambda>d. d\<lparr>pm_domain := Some 0, runtime_suspended := False,
                 subsys_data := Some \<lparr>refcount = 1,
                   domain_data = Some \<lparr>base_dev = 0, td = zero_td\<rparr>\<rparr>\<rparr>) state0)"


text \<open>
  A system sleep in progress: domain 0 is registered and active with
  \<open>prepared_count = 1\<close>; device 0 is bound to it, device 1 is not bound.
\<close>

definition prepared :: state where
  "prepared =
     (upd_domain 0
        (\<lambda>d. d\<lparr>status := GPD_STATE_ACTIVE, prepared_count := 1, dev_list := [0],
               device_count := 1\<rparr>)
        (upd_device 0
           (\<lambda>d. d\<lparr>pm_domain := Some 0, runtime_suspended := False, qos_nb_registered := True,
                  subsys_data := Some \<lparr>refcount = 1,
                    domain_data = Some \<lparr>base_dev = 0, td = zero_td\<rparr>\<rparr>\<rparr>) state0))
     \<lparr>gpd_list := [0]\<rparr>"



text \<open>
  The chain \<open>A \<leftarrow> B \<leftarrow> C\<close> with \<open>A = 0\<close>, \<open>B = 1\<close>, \<open>C = 2\<close>: 0 is the master
  of 1 and 1 the master of 2.  All three are powered off, the \<^verbatim>\<open>power_on\<close> callback of
  0 fails with -5, and device 0 is bound to domain 2.
\<close>

definition fails_with_5 :: "domid \<Rightarrow> int" where
  "fails_with_5 genpd = - 5"

definition chain :: state where
  "chain =
     upd_domain 0
       (\<lambda>d. d\<lparr>master_links := [\<lparr>master = 0, slave = 1\<rparr>], power_on := Some fails_with_5\<rparr>)
       (upd_domain 1
          (\<lambda>d. d\<lparr>master_links := [\<lparr>master = 1, slave = 2\<rparr>],
                 slave_links := [\<lparr>master = 0, slave = 1\<rparr>]\<rparr>)
          (upd_domain 2
             (\<lambda>d. d\<lparr>slave_links := [\<lparr>master = 1, slave = 2\<rparr>], dev_list := [0],
                    device_count := 1\<rparr>)
             (upd_device 0
                (\<lambda>d. d\<lparr>pm_domain := Some 2,
                       subsys_data := Some \<lparr>refcount = 1,
                         domain_data = Some \<lparr>base_dev = 0, td = zero_td\<rparr>\<rparr>\<rparr>) state0)))"

text \<open>
  Notions for the invariants of the subdomain counters: the number of links of a master
  whose slave is active, the counters being non-negative, the counter invariant, the
  consistency of the two lists that hold each link, no mutex held, and a store of freshly
  initialised domains.
\<close>

definition active_slaves :: "state \<Rightarrow> domid \<Rightarrow> nat" where
  "active_slaves s m =
     length (filter (\<lambda>l. status (domains s (slave l)) = GPD_STATE_ACTIVE)
               (master_links (domains s m)))"

definition sd_nonneg :: "state \<Rightarrow> bool" where
  "sd_nonneg s = (\<forall>d. 0 \<le> atomic_read (sd_count (domains s d)))"

definition sd_count_inv :: "state \<Rightarrow> bool" where
  "sd_count_inv s = (\<forall>m. atomic_read (sd_count (domains s m)) = int (active_slaves s m))"

definition links_wf :: "state \<Rightarrow> bool" where
  "links_wf s =
     ((\<forall>g. \<forall>l \<in> set (master_links (domains s g)). master l = g)
      \<and> (\<forall>g. \<forall>l \<in> set (slave_links (domains s g)). slave l = g)
      \<and> (\<forall>m g. length (filter (\<lambda>l. slave l = g) (master_links (domains s m)))
                  = length (filter (\<lambda>l. master l = m) (slave_links (domains s g)))))"

definition unlocked :: "state \<Rightarrow> bool" where
  "unlocked s = (\<forall>g. \<not> lock (domains s g))"

definition freshly_initialized :: "state \<Rightarrow> bool" where
  "freshly_initialized s =
     (\<forall>g. master_links (domains s g) = [] \<and> slave_links (domains s g) = []
          \<and> sd_count (domains s g) = 0 \<and> \<not> lock (domains s g))"

text \<open>
  The surplus of a counter over the number of active slaves: the increments made by
  power-on walks that are under way.
\<close>

definition excess :: "state \<Rightarrow> domid \<Rightarrow> int" where
  "excess s m = atomic_read (sd_count (domains s m)) - int (active_slaves s m)"

text \<open>The part of a domain that the power walks and the topology edits work on.\<close>

definition topo ::
  "state \<Rightarrow> domid \<Rightarrow> gpd_status \<times> 32 word \<times> gpd_link list \<times> gpd_link list \<times> bool" where
  "topo s g =
     (status (domains s g), sd_count (domains s g), master_links (domains s g),
      slave_links (domains s g), lock (domains s g))"







text \<open>
  The bound within which the 32-bit counters do not wrap around: the number of calls of
  \<^verbatim>\<open>pm_genpd_add_subdomain\<close> in a sequence of operations, and the stores in which
  every domain is the master of fewer than \<open>2^31\<close> links.
\<close>

fun adds_link :: "genpd_op \<Rightarrow> bool" where
  "adds_link (Add_subdomain m sd) = True"
| "adds_link (Remove_subdomain m sd) = False"
| "adds_link (Poweron g) = False"
| "adds_link (Poweroff g is_async) = False"
| "adds_link (Sync_poweron g timed) = False"
| "adds_link (Sync_poweroff g timed) = False"
| "adds_link (Init clk_suspend clk_resume g gv is_off) = False"

definition links_bounded :: "state \<Rightarrow> bool" where
  "links_bounded s = (\<forall>m. length (master_links (domains s m)) < 2 ^ 31)"

text \<open>
  What a power-on walk leaves as it is: the lists of links, the mutexes, and the status
  of every domain whose mutex is held.  The domains whose mutex is held are those that a
  walk is powering on: they are not active, and the surplus of a master is at most the
  number of its links to such domains, which keeps its counter within the number of its
  links.  And what the proofs assume of the function called on each master: from such a
  store it leaves the frame and every surplus as they are.
\<close>

definition busy_slaves :: "state \<Rightarrow> domid \<Rightarrow> nat" where
  "busy_slaves s m =
     length (filter (\<lambda>l. lock (domains s (slave l))) (master_links (domains s m)))"

definition locked_off :: "state \<Rightarrow> bool" where
  "locked_off s = (\<forall>x. lock (domains s x) \<longrightarrow> status (domains s x) \<noteq> GPD_STATE_ACTIVE)"

definition walk_pre :: "state \<Rightarrow> bool" where
  "walk_pre s =
     (links_wf s \<and> links_bounded s \<and> locked_off s
      \<and> (\<forall>m. 0 \<le> excess s m \<and> excess s m \<le> int (busy_slaves s m)))"

definition walk_frame :: "state \<Rightarrow> state \<Rightarrow> bool" where
  "walk_frame s s' =
     ((\<forall>g. master_links (domains s' g) = master_links (domains s g)
          \<and> slave_links (domains s' g) = slave_links (domains s g)
          \<and> lock (domains s' g) = lock (domains s g))
      \<and> (\<forall>x. lock (domains s x) \<longrightarrow> status (domains s' x) = status (domains s x)))"

definition keeps_excess :: "(domid \<Rightarrow> state \<Rightarrow> (int \<times> state) option) \<Rightarrow> bool" where
  "keeps_excess poweron =
     (\<forall>g s r s'. poweron g s = Some (r, s') \<longrightarrow> walk_pre s \<longrightarrow>
        walk_frame s s' \<and> (\<forall>m. excess s' m = excess s m))"

text \<open>
  The synchronous walks take no mutex.  What they leave as it is: the lists of links, the
  mutexes, and the status of the domains of a given set.  In the power-on walk that set
  holds the domains whose calls are under way: they are not active, each of them has a
  link to the next one or to the domain that is called, and the surplus of a master is
  at most the number of its links to them.  A set of domains that are not active and each
  have a link to a master in the set is one that the walk never leaves.  And what the
  proofs assume of the function called on each master.
\<close>

definition sync_frame :: "domid set \<Rightarrow> state \<Rightarrow> state \<Rightarrow> bool" where
  "sync_frame W s s' =
     ((\<forall>g. master_links (domains s' g) = master_links (domains s g)
          \<and> slave_links (domains s' g) = slave_links (domains s g)
          \<and> lock (domains s' g) = lock (domains s g))
      \<and> (\<forall>x \<in> W. status (domains s' x) = status (domains s x)))"

definition pending_slaves :: "domid set \<Rightarrow> state \<Rightarrow> domid \<Rightarrow> nat" where
  "pending_slaves W s m =
     length (filter (\<lambda>l. slave l \<in> W) (master_links (domains s m)))"

definition stack_off :: "domid set \<Rightarrow> state \<Rightarrow> bool" where
  "stack_off W s = (\<forall>x \<in> W. status (domains s x) \<noteq> GPD_STATE_ACTIVE)"

definition chain_to :: "domid set \<Rightarrow> domid \<Rightarrow> state \<Rightarrow> bool" where
  "chain_to W t s =
     (\<forall>x \<in> W. \<exists>l \<in> set (slave_links (domains s x)). master l \<in> insert t W)"

definition trap :: "domid set \<Rightarrow> state \<Rightarrow> bool" where
  "trap W s = (stack_off W s \<and> (\<forall>x \<in> W. \<exists>l \<in> set (slave_links (domains s x)). master l \<in> W))"

definition sync_traps :: "(domid \<Rightarrow> state \<Rightarrow> state option) \<Rightarrow> bool" where
  "sync_traps sync =
     (\<forall>W g s. trap W s \<longrightarrow>
        (g \<in> W \<longrightarrow> sync g s = None) \<and> (\<forall>s'. sync g s = Some s' \<longrightarrow> trap W s'))"

definition sync_on_pre :: "domid set \<Rightarrow> state \<Rightarrow> bool" where
  "sync_on_pre W s =
     (links_wf s \<and> links_bounded s \<and> stack_off W s
      \<and> (\<forall>m. 0 \<le> excess s m \<and> excess s m \<le> int (pending_slaves W s m)))"

definition sync_on_keeps :: "(domid \<Rightarrow> state \<Rightarrow> state option) \<Rightarrow> bool" where
  "sync_on_keeps sync =
     (\<forall>W g s s'. sync g s = Some s' \<longrightarrow> sync_on_pre W s \<longrightarrow> chain_to W g s \<longrightarrow>
        sync_frame W s s' \<and> (\<forall>m. excess s' m = excess s m))"

definition sync_off_keeps :: "(domid \<Rightarrow> state \<Rightarrow> state option) \<Rightarrow> bool" where
  "sync_off_keeps sync =
     (\<forall>g s s'. sync g s = Some s' \<longrightarrow> links_wf s \<longrightarrow> (\<forall>m. 0 \<le> excess s m) \<longrightarrow>
        sync_frame {} s s' \<and> (\<forall>m. excess s' m = excess s m))"

text \<open>The number of links of a list with a given master.\<close>

definition links_from :: "domid \<Rightarrow> gpd_link list \<Rightarrow> nat" where
  "links_from m ls = length (filter (\<lambda>l. master l = m) ls)"

text \<open>The invariant of the graph of domains at the points where no operation is under way.\<close>

definition dag_inv :: "state \<Rightarrow> bool" where
  "dag_inv s = (links_wf s \<and> sd_count_inv s \<and> unlocked s)"

text \<open>
  The operations that keep the invariant: the four operations on the graph and the two
  synchronous walks.
\<close>

fun counter_op :: "genpd_op \<Rightarrow> bool" where
  "counter_op (Add_subdomain m sd) = True"
| "counter_op (Remove_subdomain m sd) = True"
| "counter_op (Poweron g) = True"
| "counter_op (Poweroff g is_async) = True"
| "counter_op (Sync_poweron g timed) = True"
| "counter_op (Sync_poweroff g timed) = True"
| "counter_op (Init clk_suspend clk_resume g gv is_off) = False"

text \<open>Domain 0 becomes the master of domain 1, which is then powered on.\<close>

definition ops_on :: "genpd_op list" where
  "ops_on = [Add_subdomain (Some 0) (Some 1), Poweron 1]"

section \<open>Properties\<close>

subsection \<open>The atomic counter\<close>

lemma atomic_read_range: "- (2 ^ 31) \<le> atomic_read v \<and> atomic_read v < 2 ^ 31"
  using sint_ge [of v] sint_lt [of v] by (simp add: atomic_read_def)

lemma atomic_read_eq_0 [simp]: "(atomic_read v = 0) = (v = 0)"
  using signed_word_eqI [of v 0] by (auto simp: atomic_read_def)

lemma atomic_read_numeral [simp]: "atomic_read 0 = 0" "atomic_read 1 = 1"
  by (simp_all add: atomic_read_def)

lemma atomic_read_inc: "atomic_read v < 2 ^ 31 - 1 \<Longrightarrow> atomic_read (v + 1) = atomic_read v + 1"
  using atomic_read_range [of v]
  by (simp add: atomic_read_def sint_word_ariths signed_take_bit_int_eq_self)

lemma atomic_read_dec: "0 < atomic_read v \<Longrightarrow> atomic_read (v - 1) = atomic_read v - 1"
  using atomic_read_range [of v]
  by (simp add: atomic_read_def sint_word_ariths signed_take_bit_int_eq_self)

lemma atomic_read_succ_nonzero: "0 \<le> atomic_read v \<Longrightarrow> v + 1 \<noteq> 0"
proof
  assume a: "0 \<le> atomic_read v" and "v + 1 = 0"
  then have "v = - 1" by (simp add: eq_neg_iff_add_eq_0)
  with a show False by (simp add: atomic_read_def)
qed

lemma genpd_sd_counter_dec_eq:
  "genpd_sd_counter_dec genpd s =
     (if sd_count (domains s genpd) = 0 then (False, s\<lparr>warnings := Suc (warnings s)\<rparr>)
      else
        let s' = upd_domain genpd (\<lambda>d. d\<lparr>sd_count := sd_count d - 1\<rparr>) s
        in (sd_count (domains s' genpd) = 0, s'))"
  by (simp add: genpd_sd_counter_dec_def atomic_dec_and_test_def upd_domain_def Let_def)

lemma genpd_sd_counter_inc_eq:
  "genpd_sd_counter_inc genpd s = upd_domain genpd (\<lambda>d. d\<lparr>sd_count := sd_count d + 1\<rparr>) s"
  by (simp add: genpd_sd_counter_inc_def atomic_inc_def)


subsection \<open>Latency statistics of the provider callbacks\<close>

lemma genpd_power_off_timed:
  assumes "power_off (domains s g) = Some cb"
  shows "genpd_power_off g True s =
     (cb g,
      if cb g = - EBUSY then called (Cb_power_off g) (s\<lparr>ticks := Suc (ticks s)\<rparr>)
      else if clock s (Suc (ticks s)) - clock s (ticks s) \<le> power_off_latency_ns (domains s g)
      then called (Cb_power_off g) (s\<lparr>ticks := Suc (ticks s)\<rparr>)\<lparr>ticks := Suc (Suc (ticks s))\<rparr>
      else upd_domain g
             (\<lambda>d. d\<lparr>power_off_latency_ns := clock s (Suc (ticks s)) - clock s (ticks s),
                    max_off_time_changed := True\<rparr>)
             (called (Cb_power_off g) (s\<lparr>ticks := Suc (ticks s)\<rparr>)\<lparr>ticks := Suc (Suc (ticks s))\<rparr>))"
  using assms by (simp add: genpd_power_off_def ktime_get_def called_def Let_def)

lemma genpd_power_on_failed:
  assumes "power_on (domains s g) = Some cb" and "cb g \<noteq> 0"
  shows "fst (genpd_power_on g timed s) = cb g"
    and "domains (snd (genpd_power_on g timed s)) = domains s"
    and "calls (snd (genpd_power_on g timed s)) = calls s @ [Cb_power_on g]"
  using assms by (simp_all add: genpd_power_on_def ktime_get_def called_def Let_def)

text \<open>
  C10.  With latency measurement on, a power_off callback that returns an error other
  than \<open>-EBUSY\<close> is still timed: two clock readings are taken, and when the elapsed time
  exceeds \<open>power_off_latency_ns\<close> the statistic is raised to it and
  \<open>max_off_time_changed\<close> is set, before the error is returned.  A return of \<open>-EBUSY\<close>
  leaves every domain as it was (one clock reading only).  A power_on callback that
  returns an error makes \<open>genpd_power_on\<close> return that error with every domain, and so
  \<open>power_on_latency_ns\<close>, as it was.
\<close>

theorem power_latency_update_asymmetry:
  "(power_off (domains s g) = Some cb \<and> cb g \<noteq> 0 \<and> cb g \<noteq> - EBUSY \<longrightarrow>
      fst (genpd_power_off g True s) = cb g
      \<and> ticks (snd (genpd_power_off g True s)) = ticks s + 2
      \<and> (power_off_latency_ns (domains s g) < clock s (Suc (ticks s)) - clock s (ticks s) \<longrightarrow>
           power_off_latency_ns (domains (snd (genpd_power_off g True s)) g)
             = clock s (Suc (ticks s)) - clock s (ticks s)
           \<and> max_off_time_changed (domains (snd (genpd_power_off g True s)) g)))
   \<and> (power_off (domains t h) = Some cb' \<and> cb' h = - EBUSY \<longrightarrow>
        fst (genpd_power_off h True t) = - EBUSY
        \<and> ticks (snd (genpd_power_off h True t)) = ticks t + 1
        \<and> domains (snd (genpd_power_off h True t)) = domains t)
   \<and> (power_on (domains u k) = Some cb'' \<and> cb'' k \<noteq> 0 \<longrightarrow>
        fst (genpd_power_on k timed u) = cb'' k
        \<and> domains (snd (genpd_power_on k timed u)) = domains u
        \<and> power_on_latency_ns (domains (snd (genpd_power_on k timed u)) k)
            = power_on_latency_ns (domains u k))"
proof (intro conjI impI)
  assume h: "power_off (domains s g) = Some cb \<and> cb g \<noteq> 0 \<and> cb g \<noteq> - EBUSY"
  then show "fst (genpd_power_off g True s) = cb g"
    by (simp add: genpd_power_off_timed)
  from h show "ticks (snd (genpd_power_off g True s)) = ticks s + 2"
    by (simp add: genpd_power_off_timed upd_domain_def called_def)
  assume "power_off_latency_ns (domains s g) < clock s (Suc (ticks s)) - clock s (ticks s)"
  with h show "power_off_latency_ns (domains (snd (genpd_power_off g True s)) g)
      = clock s (Suc (ticks s)) - clock s (ticks s)"
    and "max_off_time_changed (domains (snd (genpd_power_off g True s)) g)"
    by (simp_all add: genpd_power_off_timed upd_domain_def called_def)
next
  assume h: "power_off (domains t h) = Some cb' \<and> cb' h = - EBUSY"
  then show "fst (genpd_power_off h True t) = - EBUSY"
    and "ticks (snd (genpd_power_off h True t)) = ticks t + 1"
    and "domains (snd (genpd_power_off h True t)) = domains t"
    by (simp_all add: genpd_power_off_timed called_def)
next
  assume h: "power_on (domains u k) = Some cb'' \<and> cb'' k \<noteq> 0"
  then show "fst (genpd_power_on k timed u) = cb'' k"
    and d: "domains (snd (genpd_power_on k timed u)) = domains u"
    by (simp_all add: genpd_power_on_failed)
  from d show "power_on_latency_ns (domains (snd (genpd_power_on k timed u)) k)
      = power_on_latency_ns (domains u k)"
    by simp
qed

theorem power_latency_update_asymmetry_witness:
  "(power_off (domains power_off_fails 0) = Some (\<lambda>_. - 5)
      \<and> (- 5 :: int) \<noteq> 0 \<and> (- 5 :: int) \<noteq> - EBUSY)
   \<and> fst (genpd_power_off 0 True power_off_fails) = - 5
   \<and> power_off_latency_ns (domains power_off_fails 0)
        < clock power_off_fails (Suc (ticks power_off_fails))
            - clock power_off_fails (ticks power_off_fails)
   \<and> power_off_latency_ns (domains (snd (genpd_power_off 0 True power_off_fails)) 0) = 10
   \<and> max_off_time_changed (domains (snd (genpd_power_off 0 True power_off_fails)) 0)
   \<and> power_off (domains power_off_busy 0) = Some (\<lambda>_. - EBUSY)
   \<and> fst (genpd_power_off 0 True power_off_busy) = - EBUSY
   \<and> domains (snd (genpd_power_off 0 True power_off_busy)) = domains power_off_busy
   \<and> power_on (domains power_on_fails 0) = Some (\<lambda>_. - 5)
   \<and> fst (genpd_power_on 0 True power_on_fails) = - 5
   \<and> power_on_latency_ns (domains (snd (genpd_power_on 0 True power_on_fails)) 0) = 0"
  using power_latency_update_asymmetry
    [of power_off_fails 0 "\<lambda>_. - 5" power_off_busy 0 "\<lambda>_. - EBUSY" power_on_fails 0 "\<lambda>_. - 5" True]
  by (simp add: power_off_fails_def power_off_busy_def power_on_fails_def state0_def dom0_def
      upd_domain_def EBUSY_def)

subsection \<open>Refusals of genpd_poweroff\<close>

lemma above_none_flags:
  "above_none (dev_pm_qos_flags d {PM_QOS_FLAG_NO_POWER_OFF, PM_QOS_FLAG_REMOTE_WAKEUP})
     = qos_forbids_off d"
  by (auto simp: dev_pm_qos_flags_def qos_forbids_off_def Let_def)

lemma poweroff_walk_eq:
  "poweroff_walk s devs n =
     (if \<exists>dev \<in> set devs. qos_forbids_off (devices s dev) then None
      else Some (n + of_nat (length (filter (\<lambda>dev. counts_not_suspended (devices s dev)) devs))))"
  by (induction devs arbitrary: n) (auto simp: above_none_flags counts_not_suspended_def)

lemma word32_of_nat_gt1: "k < 2 ^ 32 \<Longrightarrow> (1 < (of_nat k :: 32 word)) = (1 < k)"
  by (simp add: word_less_nat_alt unat_of_nat)

lemma word32_of_nat_eq1: "k < 2 ^ 32 \<Longrightarrow> ((of_nat k :: 32 word) = 1) = (k = 1)"
  by (simp add: word_unat_eq_iff unat_of_nat)

text \<open>
  C3.  \<open>genpd_poweroff\<close> returns 0 and leaves the store as it is when the domain is
  already powered off or \<open>prepared_count > 0\<close>.  Past that first check (the checks are
  made in this order), it returns \<open>-EBUSY\<close> and leaves the store as it is when
  \<open>sd_count > 0\<close>, when an attached device has the NO_POWER_OFF or the REMOTE_WAKEUP
  PM-QoS flag set, when more than one attached device is not runtime-suspended or is
  IRQ-safe, or when exactly one is and the call is asynchronous.  The counter
  \<^verbatim>\<open>not_suspended\<close> is an \<^verbatim>\<open>unsigned int\<close>: it is the number of such devices for a
  list of fewer than \<open>2^32\<close> devices.
\<close>

theorem genpd_poweroff_refusals:
  "(status (domains s g) = GPD_STATE_POWER_OFF \<or> 0 < prepared_count (domains s g) \<longrightarrow>
      genpd_poweroff g a s = (0, s))
   \<and> (status (domains t h) \<noteq> GPD_STATE_POWER_OFF \<and> prepared_count (domains t h) = 0
        \<and> length (dev_list (domains t h)) < 2 ^ 32
        \<and> (0 < atomic_read (sd_count (domains t h))
            \<or> (\<exists>dev \<in> set (dev_list (domains t h)). qos_forbids_off (devices t dev))
            \<or> 1 < not_suspended_devices t h
            \<or> (not_suspended_devices t h = 1 \<and> b)) \<longrightarrow>
      genpd_poweroff h b t = (- EBUSY, t))"
proof (intro conjI impI)
  assume "status (domains s g) = GPD_STATE_POWER_OFF \<or> 0 < prepared_count (domains s g)"
  then show "genpd_poweroff g a s = (0, s)"
    by (auto simp: genpd_poweroff_def)
next
  assume h: "status (domains t h) \<noteq> GPD_STATE_POWER_OFF \<and> prepared_count (domains t h) = 0
        \<and> length (dev_list (domains t h)) < 2 ^ 32
        \<and> (0 < atomic_read (sd_count (domains t h))
            \<or> (\<exists>dev \<in> set (dev_list (domains t h)). qos_forbids_off (devices t dev))
            \<or> 1 < not_suspended_devices t h
            \<or> (not_suspended_devices t h = 1 \<and> b))"
  let ?k = "length (filter (\<lambda>dev. counts_not_suspended (devices t dev)) (dev_list (domains t h)))"
  have k: "?k < 2 ^ 32"
    using h by (meson le_less_trans length_filter_le)
  show "genpd_poweroff h b t = (- EBUSY, t)"
    using h word32_of_nat_gt1 [OF k] word32_of_nat_eq1 [OF k]
    by (auto simp: genpd_poweroff_def poweroff_walk_eq not_suspended_devices_def)
qed

theorem genpd_poweroff_refusals_witness:
  "status (domains state0 0) = GPD_STATE_POWER_OFF
   \<and> genpd_poweroff 0 True state0 = (0, state0)
   \<and> status (domains two_devices 0) \<noteq> GPD_STATE_POWER_OFF
   \<and> prepared_count (domains two_devices 0) = 0
   \<and> length (dev_list (domains two_devices 0)) < 2 ^ 32
   \<and> 1 < not_suspended_devices two_devices 0
   \<and> genpd_poweroff 0 False two_devices = (- EBUSY, two_devices)"
  using genpd_poweroff_refusals [of state0 0 True two_devices 0 False]
  by (simp add: state0_def dom0_def dev0_def two_devices_def upd_domain_def upd_device_def
      not_suspended_devices_def counts_not_suspended_def pm_runtime_suspended_def)

subsection \<open>Idempotence of the transitions\<close>

lemma fold_dec_and_queue_status [simp]:
  "status (domains (fold dec_and_queue ls s) g) = status (domains s g)"
  by (induction ls arbitrary: s)
     (auto simp: dec_and_queue_def genpd_queue_power_off_work_def queue_work_def
        genpd_sd_counter_dec_eq upd_domain_def Let_def)

lemma genpd_poweroff_zero:
  assumes "genpd_poweroff g a s = (0, s1)"
  shows "status (domains s1 g) = GPD_STATE_POWER_OFF \<or> 0 < prepared_count (domains s1 g)"
  using assms
  by (auto simp: genpd_poweroff_def Let_def EBUSY_def EAGAIN_def upd_domain_def
      split: if_splits option.splits prod.splits)

text \<open>
  C8.  A domain is quiescent for \<open>genpd_poweroff\<close> when the call is not refused with an
  error, that is, when it returns 0.  After such a call a second call, synchronous or
  not, returns 0 and leaves the store as the first call left it.  On a domain that is
  already active \<open>__genpd_poweron\<close> returns 0 and leaves the store, and so every
  \<open>sd_count\<close> and the record of invoked callbacks, as it is.
\<close>

theorem power_transitions_idempotent:
  "(genpd_poweroff g a s = (0, s1) \<longrightarrow> genpd_poweroff g b s1 = (0, s1))
   \<and> (status (domains t h) = GPD_STATE_ACTIVE \<longrightarrow> dunder_genpd_poweron n h t = Some (0, t))"
  using genpd_poweroff_zero [of g a s s1]
  by (auto simp: dunder_genpd_poweron_def dunder_genpd_poweron_body_def genpd_poweroff_def)

theorem power_transitions_idempotent_witness:
  "genpd_poweroff 0 False idle_active = (0, idle_off)
   \<and> genpd_poweroff 0 True idle_off = (0, idle_off)
   \<and> status (domains idle_active 0) = GPD_STATE_ACTIVE
   \<and> dunder_genpd_poweron 0 0 idle_active = Some (0, idle_active)"
proof -
  have h1: "genpd_poweroff 0 False idle_active = (0, idle_off)"
    by (simp add: genpd_poweroff_def gov_power_down_veto_def idle_active_def idle_off_def
        state0_def dom0_def upd_domain_def)
  have h2: "status (domains idle_active 0) = GPD_STATE_ACTIVE"
    by (simp add: idle_active_def upd_domain_def)
  from h1 h2 power_transitions_idempotent [of 0 False idle_active idle_off True idle_active 0 0]
  show ?thesis by simp
qed

subsection \<open>Runtime suspend: a failing stop callback\<close>

text \<open>
  C7.  In \<open>pm_genpd_runtime_suspend\<close> on a device bound to a domain, when the governor
  does not veto, \<open>save_state\<close> returns 0 and \<open>stop\<close> returns an error \<open>e\<close>, the
  \<open>restore_state\<close> callback is invoked after them and the function returns \<open>e\<close>.
  The store differs from the one after the governor check only by the reading of the clock
  and the record of these three invocations: no domain has changed, no mutex was taken and
  nothing was queued, so no power-off of the domain was attempted.
\<close>

theorem runtime_suspend_stop_failure:
  assumes "subsys_data (devices s dev) \<noteq> None"
    and "dev_to_genpd s dev = Some g"
    and "\<not> fst (gov_stop_veto g dev (pm_runtime_enabled (devices s dev)) s)"
    and "save_state (dev_ops (domains s g)) = Some sv" and "sv dev (devices s dev) = 0"
    and "stop (dev_ops (domains s g)) = Some st" and "st dev (devices s dev) = e" and "e \<noteq> 0"
    and "restore_state (dev_ops (domains s g)) = Some rs"
    and "s0 = snd (gov_stop_veto g dev (pm_runtime_enabled (devices s dev)) s)"
    and "s1 = (if pm_runtime_enabled (devices s dev) then snd (ktime_get s0) else s0)"
  shows "pm_genpd_runtime_suspend dev s =
           Some (e, s1\<lparr>calls := calls s0 @ [Cb_save_state dev, Cb_stop dev, Cb_restore_state dev]\<rparr>)
         \<and> domains s1 = domains s \<and> pm_wq s1 = pm_wq s \<and> devices s1 = devices s"
proof -
  have a: "domains s0 = domains s" "devices s0 = devices s" "pm_wq s0 = pm_wq s"
    using assms(10) by (auto simp: gov_stop_veto_def called_def split: option.splits)
  have b: "domains s1 = domains s" "devices s1 = devices s" "pm_wq s1 = pm_wq s" "calls s1 = calls s0"
    using a assms(11) by (auto simp: ktime_get_def)
  have c: "gov_stop_veto g dev (pm_runtime_enabled (devices s dev)) s = (False, s0)"
    using assms(3,10) by (simp add: prod_eq_iff)
  have d: "(if pm_runtime_enabled (devices s dev) then ktime_get s0 else (0, s0))
      = ((if pm_runtime_enabled (devices s dev) then clock s0 (ticks s0) else 0), s1)"
    using assms(11) by (simp add: ktime_get_def)
  show ?thesis
    using assms(1,2,4-9) a b
    by (simp add: pm_genpd_runtime_suspend_def c d Let_def genpd_save_dev_def genpd_stop_dev_def
        genpd_restore_dev_def GENPD_DEV_CALLBACK_def called_def)
qed

theorem runtime_suspend_stop_failure_witness:
  "subsys_data (devices stop_fails 0) \<noteq> None
   \<and> dev_to_genpd stop_fails 0 = Some 0
   \<and> pm_genpd_runtime_suspend 0 stop_fails =
       Some (- 5, stop_fails\<lparr>ticks := 1, calls := [Cb_save_state 0, Cb_stop 0, Cb_restore_state 0]\<rparr>)"
  using runtime_suspend_stop_failure [of stop_fails 0 0 "\<lambda>_ _. 0" "\<lambda>_ _. - 5" "- 5" "\<lambda>_ _. 0", OF _ _ _ _ _ _ _ _ _ refl refl]
  by (simp add: stop_fails_def state0_def dom0_def dev0_def upd_domain_def upd_device_def
      dev_to_genpd_def gov_stop_veto_def pm_runtime_enabled_def ktime_get_def)

subsection \<open>Adding a subdomain\<close>

lemma lock_False_id: "\<not> lock d \<Longrightarrow> d\<lparr>lock := False\<rparr> = d"
  by (cases d) simp

lemma upd_domain_same: "f (domains s g) = domains s g \<Longrightarrow> upd_domain g f s = s"
  by (cases s) (simp add: upd_domain_def)

lemma mutex_lock_unlock:
  "\<not> lock (domains s g) \<Longrightarrow> mutex_unlock g (upd_domain g (\<lambda>d. d\<lparr>lock := True\<rparr>) s) = s"
  by (cases s) (simp add: mutex_unlock_def upd_domain_def lock_False_id)






subsection \<open>Adding and removing a device during system sleep\<close>

lemma find_eq: "find (\<lambda>x. x = a) xs = (if a \<in> set xs then Some a else None)"
  by (induction xs) auto

lemma genpd_alloc_dev_data_fresh:
  assumes "alloc_ok s (allocs s)" and "alloc_ok s (Suc (allocs s))"
    and "\<not> power_lock (devices s x)" and "dev_gpd_data s x = None"
  shows "\<exists>s1. genpd_alloc_dev_data x g td_arg s = Some (Inr (), s1)
           \<and> domains s1 = domains s \<and> gpd_list s1 = gpd_list s
           \<and> pm_domain (devices s1 x) = pm_domain (devices s x)
           \<and> qos_nb_registered (devices s1 x) = qos_nb_registered (devices s x)
           \<and> \<not> power_lock (devices s1 x) \<and> subsys_data (devices s1 x) \<noteq> None
           \<and> (\<forall>y. y \<noteq> x \<longrightarrow> devices s1 y = devices s y)"
  using assms
  by (auto simp: genpd_alloc_dev_data_def dev_pm_get_subsys_data_def kzalloc_def Let_def
      spin_lock_irq_def spin_unlock_irq_def upd_device_def dev_gpd_data_def
      split: option.splits)

lemma genpd_free_dev_data_props:
  assumes "\<not> power_lock (devices s x)" and "subsys_data (devices s x) \<noteq> None"
  shows "\<exists>s1. genpd_free_dev_data x s = Some s1
           \<and> domains s1 = domains s \<and> gpd_list s1 = gpd_list s
           \<and> pm_domain (devices s1 x) = pm_domain (devices s x)
           \<and> qos_nb_registered (devices s1 x) = qos_nb_registered (devices s x)
           \<and> dev_gpd_data s1 x = None
           \<and> (\<forall>y. y \<noteq> x \<longrightarrow> devices s1 y = devices s y)"
  using assms
  by (auto simp: genpd_free_dev_data_def dev_pm_put_subsys_data_def
      spin_lock_irq_def spin_unlock_irq_def upd_device_def dev_gpd_data_def
      split: option.splits)

text \<open>
  C6.  While \<open>prepared_count > 0\<close>, \<open>__pm_genpd_add_device\<close> on a device that is not
  bound yet (with its allocations succeeding) and \<open>pm_genpd_remove_device\<close> on a device
  of the domain both return \<open>-EAGAIN\<close>.  Every domain is as before, so
  \<open>device_count\<close> and \<open>dev_list\<close> are; the \<open>pm_domain\<close> pointer of the device is as
  before; the device that was to be added has no domain data again; and
  \<open>pm_genpd_remove_device\<close> leaves the QoS observer registered, the store being the
  original one up to that registration.
\<close>

theorem device_edit_refused_while_prepared:
  "(0 < prepared_count (domains s g) \<and> \<not> lock (domains s g)
      \<and> alloc_ok s (allocs s) \<and> alloc_ok s (Suc (allocs s))
      \<and> \<not> power_lock (devices s x) \<and> dev_gpd_data s x = None \<longrightarrow>
      (\<exists>s'. dunder_pm_genpd_add_device (Some g) (Some x) td_arg s = Some (- EAGAIN, s')
         \<and> domains s' = domains s
         \<and> pm_domain (devices s' x) = pm_domain (devices s x)
         \<and> dev_gpd_data s' x = None
         \<and> qos_nb_registered (devices s' x) = qos_nb_registered (devices s x)
         \<and> (\<forall>y. y \<noteq> x \<longrightarrow> devices s' y = devices s y)))
   \<and> (0 < prepared_count (domains t h) \<and> \<not> lock (domains t h) \<and> \<not> gpd_list_lock t
        \<and> pm_domain (devices t y) = Some h \<and> h \<in> set (gpd_list t)
        \<and> subsys_data (devices t y) \<noteq> None \<longrightarrow>
        pm_genpd_remove_device (Some h) (Some y) t
          = Some (- EAGAIN, upd_device y (\<lambda>d. d\<lparr>qos_nb_registered := True\<rparr>) t)
        \<and> domains (upd_device y (\<lambda>d. d\<lparr>qos_nb_registered := True\<rparr>) t) = domains t
        \<and> pm_domain (devices (upd_device y (\<lambda>d. d\<lparr>qos_nb_registered := True\<rparr>) t) y)
            = pm_domain (devices t y)
        \<and> qos_nb_registered (devices (upd_device y (\<lambda>d. d\<lparr>qos_nb_registered := True\<rparr>) t) y))"
proof (intro conjI impI)
  assume h: "0 < prepared_count (domains s g) \<and> \<not> lock (domains s g)
      \<and> alloc_ok s (allocs s) \<and> alloc_ok s (Suc (allocs s))
      \<and> \<not> power_lock (devices s x) \<and> dev_gpd_data s x = None"
  then obtain s1 where s1: "genpd_alloc_dev_data x g td_arg s = Some (Inr (), s1)"
      "domains s1 = domains s" "gpd_list s1 = gpd_list s"
      "pm_domain (devices s1 x) = pm_domain (devices s x)"
      "qos_nb_registered (devices s1 x) = qos_nb_registered (devices s x)"
      "\<not> power_lock (devices s1 x)" "subsys_data (devices s1 x) \<noteq> None"
      "\<forall>y. y \<noteq> x \<longrightarrow> devices s1 y = devices s y"
    using genpd_alloc_dev_data_fresh [of s x g td_arg] by blast
  have l: "\<not> lock (domains s1 g)" "0 < prepared_count (domains s1 g)"
    using h s1(2) by simp_all
  obtain s2 where s2: "genpd_free_dev_data x s1 = Some s2"
      "domains s2 = domains s1" "pm_domain (devices s2 x) = pm_domain (devices s1 x)"
      "qos_nb_registered (devices s2 x) = qos_nb_registered (devices s1 x)"
      "dev_gpd_data s2 x = None" "\<forall>y. y \<noteq> x \<longrightarrow> devices s2 y = devices s1 y"
    using genpd_free_dev_data_props [OF s1(6,7)] by blast
  have "dunder_pm_genpd_add_device (Some g) (Some x) td_arg s = Some (- EAGAIN, s2)"
    using s1(1) l s2(1) mutex_lock_unlock [OF l(1)]
    by (simp add: dunder_pm_genpd_add_device_def mutex_lock_def upd_domain_def EAGAIN_def)
  then show "\<exists>s'. dunder_pm_genpd_add_device (Some g) (Some x) td_arg s = Some (- EAGAIN, s')
         \<and> domains s' = domains s
         \<and> pm_domain (devices s' x) = pm_domain (devices s x)
         \<and> dev_gpd_data s' x = None
         \<and> qos_nb_registered (devices s' x) = qos_nb_registered (devices s x)
         \<and> (\<forall>y. y \<noteq> x \<longrightarrow> devices s' y = devices s y)"
    using s1 s2 by auto
next
  assume h: "0 < prepared_count (domains t h) \<and> \<not> lock (domains t h) \<and> \<not> gpd_list_lock t
        \<and> pm_domain (devices t y) = Some h \<and> h \<in> set (gpd_list t)
        \<and> subsys_data (devices t y) \<noteq> None"
  let ?t = "dev_pm_qos_remove_notifier y t"
  have l: "\<not> lock (domains ?t h)"
    using h by (simp add: dev_pm_qos_remove_notifier_def upd_device_def)
  have e: "dev_pm_qos_add_notifier y ?t = upd_device y (\<lambda>d. d\<lparr>qos_nb_registered := True\<rparr>) t"
    by (cases t) (simp add: dev_pm_qos_add_notifier_def dev_pm_qos_remove_notifier_def
        upd_device_def)
  show "pm_genpd_remove_device (Some h) (Some y) t
          = Some (- EAGAIN, upd_device y (\<lambda>d. d\<lparr>qos_nb_registered := True\<rparr>) t)"
    using h mutex_lock_unlock [OF l] e l
    by (auto simp: pm_genpd_remove_device_def pm_genpd_lookup_dev_def find_eq mutex_lock_def
        upd_domain_def dev_pm_qos_remove_notifier_def upd_device_def)
  show "domains (upd_device y (\<lambda>d. d\<lparr>qos_nb_registered := True\<rparr>) t) = domains t"
    and "pm_domain (devices (upd_device y (\<lambda>d. d\<lparr>qos_nb_registered := True\<rparr>) t) y)
            = pm_domain (devices t y)"
    and "qos_nb_registered (devices (upd_device y (\<lambda>d. d\<lparr>qos_nb_registered := True\<rparr>) t) y)"
    by (simp_all add: upd_device_def)
qed


theorem device_edit_refused_while_prepared_witness:
  "0 < prepared_count (domains prepared 0)
   \<and> dev_gpd_data prepared 1 = None
   \<and> (\<exists>s'. dunder_pm_genpd_add_device (Some 0) (Some 1) None prepared = Some (- EAGAIN, s')
          \<and> domains s' = domains prepared \<and> pm_domain (devices s' 1) = None)
   \<and> pm_domain (devices prepared 0) = Some 0
   \<and> pm_genpd_remove_device (Some 0) (Some 0) prepared
        = Some (- EAGAIN, upd_device 0 (\<lambda>d. d\<lparr>qos_nb_registered := True\<rparr>) prepared)
   \<and> qos_nb_registered (devices (upd_device 0 (\<lambda>d. d\<lparr>qos_nb_registered := True\<rparr>) prepared) 0)"
  using device_edit_refused_while_prepared [of prepared 0 1 None prepared 0 0]
  by (auto simp: prepared_def state0_def dom0_def dev0_def upd_domain_def upd_device_def
      dev_gpd_data_def)

subsection \<open>The first prepare of a system-sleep cycle\<close>




subsection \<open>Runtime resume when the power-on of a master fails\<close>

lemma sd_inc_dec:
  "0 \<le> atomic_read (sd_count (domains s g)) \<Longrightarrow>
   snd (genpd_sd_counter_dec g (genpd_sd_counter_inc g s)) = s"
  by (cases s, cases "domains s g")
     (auto simp: genpd_sd_counter_dec_eq genpd_sd_counter_inc_eq upd_domain_def Let_def fun_eq_iff
        dest: atomic_read_succ_nonzero)

lemma poweron_leaf_fails:
  assumes "slave_links (domains s a) = []" and "status (domains s a) = GPD_STATE_POWER_OFF"
    and "prepared_count (domains s a) = 0"
    and "power_on (domains s a) = Some f" and "f a \<noteq> 0"
  shows "dunder_genpd_poweron_body poweron a s =
           Some (f a, s\<lparr>ticks := Suc (ticks s), calls := calls s @ [Cb_power_on a]\<rparr>)"
  using assms
  by (simp add: dunder_genpd_poweron_body_def genpd_power_on_def ktime_get_def called_def)

lemma locked_call:
  assumes "\<not> lock (domains s g)"
    and "\<And>s1. domains s1 = (domains s)(g := (domains s g)\<lparr>lock := True\<rparr>) \<Longrightarrow>
           dunder_genpd_poweron_body (genpd_poweron n) g s1 =
             Some (r, s1\<lparr>ticks := Suc (ticks s1), calls := calls s1 @ [c]\<rparr>)"
  shows "genpd_poweron (Suc n) g s = Some (r, s\<lparr>ticks := Suc (ticks s), calls := calls s @ [c]\<rparr>)"
proof -
  let ?s1 = "upd_domain g (\<lambda>d. d\<lparr>lock := True\<rparr>) s"
  have "dunder_genpd_poweron_body (genpd_poweron n) g ?s1 =
             Some (r, ?s1\<lparr>ticks := Suc (ticks ?s1), calls := calls ?s1 @ [c]\<rparr>)"
    by (rule assms(2)) (simp add: upd_domain_def)
  moreover have "mutex_unlock g (?s1\<lparr>ticks := Suc (ticks ?s1), calls := calls ?s1 @ [c]\<rparr>)
      = s\<lparr>ticks := Suc (ticks s), calls := calls s @ [c]\<rparr>"
    using assms(1)
    by (cases s, cases "domains s g") (auto simp: mutex_unlock_def upd_domain_def fun_eq_iff)
  ultimately show ?thesis using assms(1) by (simp add: mutex_lock_def)
qed

lemma poweron_one_master_fails:
  assumes "slave_links (domains s g) = [\<lparr>master = m, slave = g\<rparr>]"
    and "status (domains s g) = GPD_STATE_POWER_OFF" and "prepared_count (domains s g) = 0"
    and "0 \<le> atomic_read (sd_count (domains s m))" and "r \<noteq> 0"
    and "poweron m (genpd_sd_counter_inc m s) =
           Some (r, (genpd_sd_counter_inc m s)
             \<lparr>ticks := Suc (ticks s), calls := calls s @ [c]\<rparr>)"
  shows "dunder_genpd_poweron_body poweron g s =
           Some (r, s\<lparr>ticks := Suc (ticks s), calls := calls s @ [c]\<rparr>)"
proof -
  have "snd (genpd_sd_counter_dec m ((genpd_sd_counter_inc m s)
             \<lparr>ticks := Suc (ticks s), calls := calls s @ [c]\<rparr>))
        = s\<lparr>ticks := Suc (ticks s), calls := calls s @ [c]\<rparr>"
    using assms(4)
    by (cases s, cases "domains s m")
       (auto simp: genpd_sd_counter_dec_eq genpd_sd_counter_inc_eq upd_domain_def Let_def fun_eq_iff
          dest: atomic_read_succ_nonzero)
  then show ?thesis
    using assms by (simp add: dunder_genpd_poweron_body_def)
qed

lemma resume_chain_failure:
  assumes "a \<noteq> b" and "b \<noteq> c" and "a \<noteq> c"
    and "slave_links (domains s a) = []"
    and "slave_links (domains s b) = [\<lparr>master = a, slave = b\<rparr>]"
    and "slave_links (domains s c) = [\<lparr>master = b, slave = c\<rparr>]"
    and "status (domains s a) = GPD_STATE_POWER_OFF"
    and "status (domains s b) = GPD_STATE_POWER_OFF"
    and "status (domains s c) = GPD_STATE_POWER_OFF"
    and "prepared_count (domains s a) = 0" and "prepared_count (domains s b) = 0"
    and "prepared_count (domains s c) = 0"
    and "\<not> lock (domains s a)" and "\<not> lock (domains s b)" and "\<not> lock (domains s c)"
    and "0 \<le> atomic_read (sd_count (domains s a))" and "0 \<le> atomic_read (sd_count (domains s b))"
    and "power_on (domains s a) = Some f" and "f a = e" and "e \<noteq> 0"
    and "dev_to_genpd s d = Some c" and "\<not> irq_safe (devices s d)"
    and "subsys_data (devices s d) \<noteq> None"
  shows "pm_genpd_runtime_resume (Suc (Suc n)) d s =
           Some (e, s\<lparr>ticks := Suc (ticks s), calls := calls s @ [Cb_power_on a]\<rparr>)"
proof -
  have A: "genpd_poweron (Suc n) a t =
        Some (e, t\<lparr>ticks := Suc (ticks t), calls := calls t @ [Cb_power_on a]\<rparr>)"
    if "domains t a = (domains s a)\<lparr>sd_count := k\<rparr>" for t k
  proof (rule locked_call)
    show "\<not> lock (domains t a)" using that assms(13) by simp
    fix s1 :: state assume "domains s1 = (domains t)(a := (domains t a)\<lparr>lock := True\<rparr>)"
    then show "dunder_genpd_poweron_body (genpd_poweron n) a s1 =
        Some (e, s1\<lparr>ticks := Suc (ticks s1), calls := calls s1 @ [Cb_power_on a]\<rparr>)"
      using poweron_leaf_fails [of s1 a f "genpd_poweron n"] that assms by simp
  qed
  have B: "genpd_poweron (Suc (Suc n)) b t =
        Some (e, t\<lparr>ticks := Suc (ticks t), calls := calls t @ [Cb_power_on a]\<rparr>)"
    if "domains t b = (domains s b)\<lparr>sd_count := k\<rparr>" "domains t a = domains s a" for t k
  proof (rule locked_call)
    show "\<not> lock (domains t b)" using that assms(14) by simp
    fix s1 :: state assume s1: "domains s1 = (domains t)(b := (domains t b)\<lparr>lock := True\<rparr>)"
    show "dunder_genpd_poweron_body (genpd_poweron (Suc n)) b s1 =
        Some (e, s1\<lparr>ticks := Suc (ticks s1), calls := calls s1 @ [Cb_power_on a]\<rparr>)"
    proof (rule poweron_one_master_fails [where m = a])
      show "slave_links (domains s1 b) = [\<lparr>master = a, slave = b\<rparr>]"
        and "status (domains s1 b) = GPD_STATE_POWER_OFF"
        and "prepared_count (domains s1 b) = 0"
        and "0 \<le> atomic_read (sd_count (domains s1 a))" and "e \<noteq> 0"
        using s1 that assms by simp_all
      have "domains (genpd_sd_counter_inc a s1) a = (domains s a)\<lparr>sd_count := sd_count (domains s a) + 1\<rparr>"
        using s1 that assms(1) by (simp add: genpd_sd_counter_inc_eq upd_domain_def)
      from A [OF this]
      show "genpd_poweron (Suc n) a (genpd_sd_counter_inc a s1) =
          Some (e, (genpd_sd_counter_inc a s1)
             \<lparr>ticks := Suc (ticks s1), calls := calls s1 @ [Cb_power_on a]\<rparr>)"
        by (simp add: genpd_sd_counter_inc_eq upd_domain_def)
    qed
  qed
  let ?s1 = "upd_domain c (\<lambda>d. d\<lparr>lock := True\<rparr>) s"
  have C: "dunder_genpd_poweron (Suc (Suc n)) c ?s1 =
        Some (e, ?s1\<lparr>ticks := Suc (ticks ?s1), calls := calls ?s1 @ [Cb_power_on a]\<rparr>)"
    unfolding dunder_genpd_poweron_def
  proof (rule poweron_one_master_fails [where m = b])
    show "slave_links (domains ?s1 c) = [\<lparr>master = b, slave = c\<rparr>]"
      and "status (domains ?s1 c) = GPD_STATE_POWER_OFF"
      and "prepared_count (domains ?s1 c) = 0"
      and "0 \<le> atomic_read (sd_count (domains ?s1 b))" and "e \<noteq> 0"
      using assms by (simp_all add: upd_domain_def)
    have "domains (genpd_sd_counter_inc b ?s1) b = (domains s b)\<lparr>sd_count := sd_count (domains s b) + 1\<rparr>"
      and "domains (genpd_sd_counter_inc b ?s1) a = domains s a"
      using assms(1-3) by (simp_all add: genpd_sd_counter_inc_eq upd_domain_def)
    from B [OF this]
    show "genpd_poweron (Suc (Suc n)) b (genpd_sd_counter_inc b ?s1) =
          Some (e, (genpd_sd_counter_inc b ?s1)
             \<lparr>ticks := Suc (ticks ?s1), calls := calls ?s1 @ [Cb_power_on a]\<rparr>)"
      by (simp add: genpd_sd_counter_inc_eq upd_domain_def)
  qed
  have U: "mutex_unlock c (?s1\<lparr>ticks := Suc (ticks ?s1), calls := calls ?s1 @ [Cb_power_on a]\<rparr>)
      = s\<lparr>ticks := Suc (ticks s), calls := calls s @ [Cb_power_on a]\<rparr>"
    using assms(15)
    by (cases s, cases "domains s c") (auto simp: mutex_unlock_def upd_domain_def fun_eq_iff)
  show ?thesis
    using assms(15,20-23) C U
    by (simp add: pm_genpd_runtime_resume_def mutex_lock_def Let_def)
qed


text \<open>
  C2, as the code has it.  In a chain \<open>A \<leftarrow> B \<leftarrow> C\<close> of powered-off domains outside
  system sleep, with free mutexes and non-negative subdomain counters, and a device \<open>d\<close>
  (not IRQ-safe) bound to \<open>C\<close>: if the \<open>power_on\<close> callback of \<open>A\<close> returns an error
  \<open>e\<close>, then \<open>pm_genpd_runtime_resume\<close> on \<open>d\<close> returns \<open>e\<close>, and the store is the
  initial one up to one reading of the clock and the record of that callback.  So
  \<open>A.sd_count\<close> and \<open>B.sd_count\<close> have their values from before the call, all three
  domains are still powered off, and no deferred power-off is queued, neither for \<open>B\<close>
  nor for \<open>A\<close>: the error path queues the masters that were processed before the failing
  one, and there is none.
\<close>

theorem resume_unwinds_master_failure:
  assumes "a \<noteq> b" and "b \<noteq> c" and "a \<noteq> c"
    and "slave_links (domains s a) = []"
    and "slave_links (domains s b) = [\<lparr>master = a, slave = b\<rparr>]"
    and "slave_links (domains s c) = [\<lparr>master = b, slave = c\<rparr>]"
    and "status (domains s a) = GPD_STATE_POWER_OFF"
    and "status (domains s b) = GPD_STATE_POWER_OFF"
    and "status (domains s c) = GPD_STATE_POWER_OFF"
    and "prepared_count (domains s a) = 0" and "prepared_count (domains s b) = 0"
    and "prepared_count (domains s c) = 0"
    and "\<not> lock (domains s a)" and "\<not> lock (domains s b)" and "\<not> lock (domains s c)"
    and "0 \<le> atomic_read (sd_count (domains s a))" and "0 \<le> atomic_read (sd_count (domains s b))"
    and "power_on (domains s a) = Some f" and "f a = e" and "e \<noteq> 0"
    and "dev_to_genpd s d = Some c" and "\<not> irq_safe (devices s d)"
    and "subsys_data (devices s d) \<noteq> None"
    and "s' = s\<lparr>ticks := Suc (ticks s), calls := calls s @ [Cb_power_on a]\<rparr>"
  shows "pm_genpd_runtime_resume (Suc (Suc n)) d s = Some (e, s')
     \<and> sd_count (domains s' a) = sd_count (domains s a)
     \<and> sd_count (domains s' b) = sd_count (domains s b)
     \<and> pm_wq s' = pm_wq s"
  using resume_chain_failure [OF assms(1-23)] assms(24) by simp

lemma chain_facts:
  "slave_links (domains chain 0) = []"
  "slave_links (domains chain (Suc 0)) = [\<lparr>master = 0, slave = Suc 0\<rparr>]"
  "slave_links (domains chain 2) = [\<lparr>master = Suc 0, slave = 2\<rparr>]"
  "status (domains chain 0) = GPD_STATE_POWER_OFF"
  "status (domains chain (Suc 0)) = GPD_STATE_POWER_OFF"
  "status (domains chain 2) = GPD_STATE_POWER_OFF"
  "prepared_count (domains chain 0) = 0" "prepared_count (domains chain (Suc 0)) = 0"
  "prepared_count (domains chain 2) = 0"
  "\<not> lock (domains chain 0)" "\<not> lock (domains chain (Suc 0))" "\<not> lock (domains chain 2)"
  "0 \<le> atomic_read (sd_count (domains chain 0))" "0 \<le> atomic_read (sd_count (domains chain (Suc 0)))"
  "power_on (domains chain 0) = Some fails_with_5" "fails_with_5 0 = - 5"
  "dev_to_genpd chain 0 = Some 2" "\<not> irq_safe (devices chain 0)"
  "subsys_data (devices chain 0) \<noteq> None"
  "ticks chain = 0" "calls chain = []" "pm_wq chain = []"
  by (simp_all add: chain_def state0_def dom0_def dev0_def upd_domain_def upd_device_def
      dev_to_genpd_def fails_with_5_def)

theorem resume_unwinds_master_failure_witness:
  "status (domains chain 0) = GPD_STATE_POWER_OFF
   \<and> status (domains chain 1) = GPD_STATE_POWER_OFF
   \<and> status (domains chain 2) = GPD_STATE_POWER_OFF
   \<and> power_on (domains chain 0) = Some fails_with_5 \<and> fails_with_5 0 = - 5
   \<and> dev_to_genpd chain 0 = Some 2
   \<and> pm_genpd_runtime_resume (Suc (Suc 0)) 0 chain = Some (- 5, chain\<lparr>ticks := 1, calls := [Cb_power_on 0]\<rparr>)
   \<and> sd_count (domains (chain\<lparr>ticks := 1, calls := [Cb_power_on 0]\<rparr>) 0) = sd_count (domains chain 0)
   \<and> sd_count (domains (chain\<lparr>ticks := 1, calls := [Cb_power_on 0]\<rparr>) 1) = sd_count (domains chain 1)
   \<and> pm_wq (chain\<lparr>ticks := 1, calls := [Cb_power_on 0]\<rparr>) = pm_wq chain"
  using resume_unwinds_master_failure
    [of 0 1 2 chain fails_with_5 "- 5" 0 "chain\<lparr>ticks := 1, calls := [Cb_power_on 0]\<rparr>" 0]
  by (simp add: chain_facts)

text \<open>
  The claim has the deferred power-off of \<open>B\<close> queued.  In the chain \<open>0 \<leftarrow> 1 \<leftarrow> 2\<close>
  the work queue is empty after the failed resume: the work item of domain 1 is not
  pending.
\<close>

theorem resume_master_failure_counterexample:
  "status (domains chain 0) = GPD_STATE_POWER_OFF
   \<and> status (domains chain (Suc 0)) = GPD_STATE_POWER_OFF
   \<and> status (domains chain 2) = GPD_STATE_POWER_OFF
   \<and> slave_links (domains chain (Suc 0)) = [\<lparr>master = 0, slave = Suc 0\<rparr>]
   \<and> slave_links (domains chain 2) = [\<lparr>master = Suc 0, slave = 2\<rparr>]
   \<and> dev_to_genpd chain 0 = Some 2
   \<and> power_on (domains chain 0) = Some fails_with_5 \<and> fails_with_5 0 = - 5
   \<and> pm_genpd_runtime_resume (Suc (Suc 0)) 0 chain
        = Some (- 5, chain\<lparr>ticks := 1, calls := [Cb_power_on 0]\<rparr>)
   \<and> Suc 0 \<notin> set (pm_wq (chain\<lparr>ticks := 1, calls := [Cb_power_on 0]\<rparr>))"
  using resume_chain_failure [of 0 1 2 chain fails_with_5 "- 5" 0 0]
  by (simp add: chain_facts)

subsection \<open>What the power walks leave as it is\<close>

lemma topo_eq_iff:
  "(topo s' = topo s) =
     (\<forall>g. status (domains s' g) = status (domains s g)
        \<and> sd_count (domains s' g) = sd_count (domains s g)
        \<and> master_links (domains s' g) = master_links (domains s g)
        \<and> slave_links (domains s' g) = slave_links (domains s g)
        \<and> lock (domains s' g) = lock (domains s g))"
  by (auto simp: topo_def fun_eq_iff)

lemma topo_genpd_power_on [simp]: "topo (snd (genpd_power_on g timed s)) = topo s"
  by (auto simp: topo_eq_iff genpd_power_on_def ktime_get_def called_def upd_domain_def Let_def
      split: option.splits)

lemma topo_genpd_power_off [simp]: "topo (snd (genpd_power_off g timed s)) = topo s"
  by (auto simp: topo_eq_iff genpd_power_off_def ktime_get_def called_def upd_domain_def Let_def
      split: option.splits)

lemma topo_gov_power_down_veto [simp]: "topo (snd (gov_power_down_veto g s)) = topo s"
  by (auto simp: topo_eq_iff gov_power_down_veto_def called_def split: option.splits)

lemma topo_queue [simp]: "topo (genpd_queue_power_off_work g s) = topo s"
  by (auto simp: topo_eq_iff genpd_queue_power_off_work_def queue_work_def)


lemma dunder_genpd_poweron_body_eq:
  "dunder_genpd_poweron_body poweron g s =
     (if status (domains s g) = GPD_STATE_ACTIVE
         \<or> (0 < prepared_count (domains s g) \<and> suspend_power_off (domains s g))
      then Some (0, s)
      else
        (case poweron_masters poweron [] (slave_links (domains s g)) s of
           None \<Rightarrow> None
         | Some (ret, pos, s1) \<Rightarrow>
             if ret \<noteq> 0 then Some (ret, fold dec_and_queue pos s1)
             else if fst (genpd_power_on g True s1) \<noteq> 0
             then Some (fst (genpd_power_on g True s1),
                    fold dec_and_queue pos (snd (genpd_power_on g True s1)))
             else Some (0, upd_domain g (\<lambda>d. d\<lparr>status := GPD_STATE_ACTIVE\<rparr>)
                             (snd (genpd_power_on g True s1)))))"
  by (auto simp: dunder_genpd_poweron_body_def Let_def case_prod_unfold split: option.splits)

lemma dunder_genpd_poweron_body_cases:
  assumes "dunder_genpd_poweron_body poweron g s = Some (r, s')"
  obtains
    (early) "status (domains s g) = GPD_STATE_ACTIVE
         \<or> (0 < prepared_count (domains s g) \<and> suspend_power_off (domains s g))"
      and "r = 0" and "s' = s"
  | (master_failed) pos s1 where "status (domains s g) \<noteq> GPD_STATE_ACTIVE"
      and "poweron_masters poweron [] (slave_links (domains s g)) s = Some (r, pos, s1)"
      and "r \<noteq> 0" and "s' = fold dec_and_queue pos s1"
  | (power_on_failed) pos s1 where "status (domains s g) \<noteq> GPD_STATE_ACTIVE"
      and "poweron_masters poweron [] (slave_links (domains s g)) s = Some (0, pos, s1)"
      and "r = fst (genpd_power_on g True s1)" and "r \<noteq> 0"
      and "s' = fold dec_and_queue pos (snd (genpd_power_on g True s1))"
  | (powered_on) pos s1 where "status (domains s g) \<noteq> GPD_STATE_ACTIVE"
      and "poweron_masters poweron [] (slave_links (domains s g)) s = Some (0, pos, s1)"
      and "fst (genpd_power_on g True s1) = 0" and "r = 0"
      and "s' = upd_domain g (\<lambda>d. d\<lparr>status := GPD_STATE_ACTIVE\<rparr>)
                  (snd (genpd_power_on g True s1))"
proof (cases "status (domains s g) = GPD_STATE_ACTIVE
         \<or> (0 < prepared_count (domains s g) \<and> suspend_power_off (domains s g))")
  case True
  with assms have "r = 0" "s' = s" by (simp_all add: dunder_genpd_poweron_body_eq)
  with True show ?thesis by (rule early)
next
  case False
  then have na: "status (domains s g) \<noteq> GPD_STATE_ACTIVE" by simp
  from False have ne: "dunder_genpd_poweron_body poweron g s =
        (case poweron_masters poweron [] (slave_links (domains s g)) s of
           None \<Rightarrow> None
         | Some (ret, pos, s1) \<Rightarrow>
             if ret \<noteq> 0 then Some (ret, fold dec_and_queue pos s1)
             else if fst (genpd_power_on g True s1) \<noteq> 0
             then Some (fst (genpd_power_on g True s1),
                    fold dec_and_queue pos (snd (genpd_power_on g True s1)))
             else Some (0, upd_domain g (\<lambda>d. d\<lparr>status := GPD_STATE_ACTIVE\<rparr>)
                             (snd (genpd_power_on g True s1))))"
    by (subst dunder_genpd_poweron_body_eq) (simp only: if_False)
  show ?thesis
  proof (cases "poweron_masters poweron [] (slave_links (domains s g)) s")
    case None
    with ne assms show ?thesis by simp
  next
    case (Some x)
    obtain r1 pos s1 where x: "x = (r1, pos, s1)" by (cases x)
    note m = Some [unfolded x]
    show ?thesis
    proof (cases "r1 = 0")
      case False
      with ne m assms have "r = r1" "s' = fold dec_and_queue pos s1"
        by simp_all
      with False m na show ?thesis by (intro master_failed [of pos s1]) simp_all
    next
      case r1: True
      show ?thesis
      proof (cases "fst (genpd_power_on g True s1) = 0")
        case False
        with ne m r1 assms have "r = fst (genpd_power_on g True s1)"
            "s' = fold dec_and_queue pos (snd (genpd_power_on g True s1))"
          by simp_all
        with False m r1 na show ?thesis by (intro power_on_failed [of pos s1]) simp_all
      next
        case True
        with ne m r1 assms have "r = 0"
            "s' = upd_domain g (\<lambda>d. d\<lparr>status := GPD_STATE_ACTIVE\<rparr>)
                    (snd (genpd_power_on g True s1))"
          by simp_all
        with True m r1 na show ?thesis by (intro powered_on [of pos s1]) simp_all
      qed
    qed
  qed
qed


lemma genpd_poweroff_cases:
  obtains (unchanged) "topo (snd (genpd_poweroff g a s)) = topo s"
  | (powered_off) s2 where "topo s2 = topo s" and "status (domains s g) \<noteq> GPD_STATE_POWER_OFF"
      and "\<not> 0 < atomic_read (sd_count (domains s g))" and "fst (genpd_poweroff g a s) = 0"
      and "snd (genpd_poweroff g a s) =
             fold dec_and_queue (slave_links (domains s g))
               (upd_domain g (\<lambda>d. d\<lparr>status := GPD_STATE_POWER_OFF\<rparr>) s2)"
proof -
  define s1 where "s1 = snd (gov_power_down_veto g s)"
  define pr where "pr = (if power_off (domains s1 g) \<noteq> None
               then genpd_power_off g True s1 else (0, s1))"
  define s3 where "s3 = upd_domain g (\<lambda>d. d\<lparr>status := GPD_STATE_POWER_OFF\<rparr>) (snd pr)"
  have t1: "topo s1 = topo s" by (simp add: s1_def)
  have t2: "topo (snd pr) = topo s" using t1 by (simp add: pr_def)
  have sl: "slave_links (domains s3 g) = slave_links (domains s g)"
    using t2 by (simp add: topo_eq_iff s3_def upd_domain_def)
  have e: "genpd_poweroff g a s = (0, fold dec_and_queue (slave_links (domains s g)) s3)
      \<and> status (domains s g) \<noteq> GPD_STATE_POWER_OFF \<and> \<not> 0 < atomic_read (sd_count (domains s g))
     \<or> snd (genpd_poweroff g a s) = s \<or> snd (genpd_poweroff g a s) = s1
     \<or> snd (genpd_poweroff g a s) = snd pr"
    unfolding genpd_poweroff_def sl [symmetric]
    by (auto simp: Let_def case_prod_unfold s1_def pr_def s3_def split: option.splits)
  then consider
      (a) "genpd_poweroff g a s = (0, fold dec_and_queue (slave_links (domains s g)) s3)"
        "status (domains s g) \<noteq> GPD_STATE_POWER_OFF" "\<not> 0 < atomic_read (sd_count (domains s g))"
    | (b) "snd (genpd_poweroff g a s) = s" | (c) "snd (genpd_poweroff g a s) = s1"
    | (d) "snd (genpd_poweroff g a s) = snd pr"
    by blast
  then show thesis
  proof cases
    case a
    then show ?thesis using powered_off [OF t2] by (simp add: s3_def)
  next
    case b
    then show ?thesis using unchanged by simp
  next
    case c
    then show ?thesis using unchanged t1 by simp
  next
    case d
    then show ?thesis using unchanged t2 by simp
  qed
qed


subsection \<open>The subdomain counter counts the active slaves\<close>

text \<open>
  While a power-on walk is under way, the counters of the masters it has passed are ahead
  of the number of their active slaves.  The walk through the masters is therefore
  followed with the surplus \<open>excess\<close> of each counter, which every completed call of
  \<open>genpd_poweron\<close> leaves as it found it.  Each increment that is outstanding belongs
  to a link whose slave holds its mutex and is not active, so that a counter never
  exceeds the number of links of its master, and does not wrap around when that number
  is below \<open>2^31\<close>.
\<close>

lemma active_slaves_cong:
  assumes "\<And>g. status (domains s' g) = status (domains s g)"
    and "master_links (domains s' m) = master_links (domains s m)"
  shows "active_slaves s' m = active_slaves s m"
  using assms by (simp add: active_slaves_def)

lemma excess_cong:
  assumes "\<And>g. status (domains s' g) = status (domains s g)"
    and "master_links (domains s' m) = master_links (domains s m)"
    and "sd_count (domains s' m) = sd_count (domains s m)"
  shows "excess s' m = excess s m"
  using assms by (simp add: excess_def active_slaves_def)

lemma excess_topo: "topo s' = topo s \<Longrightarrow> excess s' m = excess s m"
  by (rule excess_cong) (simp_all add: topo_eq_iff)

lemma links_wf_cong:
  assumes "\<And>g. master_links (domains s' g) = master_links (domains s g)"
    and "\<And>g. slave_links (domains s' g) = slave_links (domains s g)"
  shows "links_wf s' = links_wf s"
  using assms by (simp add: links_wf_def)

lemma links_wf_topo: "topo s' = topo s \<Longrightarrow> links_wf s' = links_wf s"
  by (rule links_wf_cong) (simp_all add: topo_eq_iff)

lemma walk_frame_refl [simp]: "walk_frame s s"
  by (simp add: walk_frame_def)

lemma walk_frame_trans: "walk_frame s t \<Longrightarrow> walk_frame t u \<Longrightarrow> walk_frame s u"
  by (simp add: walk_frame_def)

lemma walk_frame_topo: "topo s' = topo s \<Longrightarrow> walk_frame s s'"
  by (simp add: walk_frame_def topo_eq_iff)

lemma walk_frame_links_wf: "walk_frame s s' \<Longrightarrow> links_wf s' = links_wf s"
  by (rule links_wf_cong) (simp_all add: walk_frame_def)


lemma walk_frame_busy: "walk_frame s s' \<Longrightarrow> busy_slaves s' m = busy_slaves s m"
  by (simp add: walk_frame_def busy_slaves_def)

lemma walk_frame_locked_off: "walk_frame s s' \<Longrightarrow> locked_off s \<Longrightarrow> locked_off s'"
  by (simp add: walk_frame_def locked_off_def)

lemma walk_frame_links_bounded: "walk_frame s s' \<Longrightarrow> links_bounded s' = links_bounded s"
  by (simp add: walk_frame_def links_bounded_def)

text \<open>Increment and decrement.\<close>

lemma inc_fields [simp]:
  "status (domains (genpd_sd_counter_inc g s) x) = status (domains s x)"
  "master_links (domains (genpd_sd_counter_inc g s) x) = master_links (domains s x)"
  "slave_links (domains (genpd_sd_counter_inc g s) x) = slave_links (domains s x)"
  "lock (domains (genpd_sd_counter_inc g s) x) = lock (domains s x)"
  "sd_count (domains (genpd_sd_counter_inc g s) x)
     = sd_count (domains s x) + (if x = g then 1 else 0)"
  by (simp_all add: genpd_sd_counter_inc_eq upd_domain_def)

lemma dec_fields [simp]:
  "status (domains (snd (genpd_sd_counter_dec g s)) x) = status (domains s x)"
  "master_links (domains (snd (genpd_sd_counter_dec g s)) x) = master_links (domains s x)"
  "slave_links (domains (snd (genpd_sd_counter_dec g s)) x) = slave_links (domains s x)"
  "lock (domains (snd (genpd_sd_counter_dec g s)) x) = lock (domains s x)"
  "sd_count (domains (snd (genpd_sd_counter_dec g s)) x)
     = sd_count (domains s x) - (if x = g \<and> sd_count (domains s g) \<noteq> 0 then 1 else 0)"
  by (simp_all add: genpd_sd_counter_dec_eq upd_domain_def Let_def)

lemma atomic_read_pos_nonzero: "0 < atomic_read v \<Longrightarrow> v \<noteq> 0"
  by auto

lemma atomic_read_dec_fields:
  "0 < atomic_read (sd_count (domains s g)) \<Longrightarrow>
   atomic_read (sd_count (domains (snd (genpd_sd_counter_dec g s)) x))
     = atomic_read (sd_count (domains s x)) - (if x = g then 1 else 0)"
  by (simp add: atomic_read_dec atomic_read_pos_nonzero)


lemma queue_fields [simp]:
  "domains (genpd_queue_power_off_work g s) = domains s"
  by (simp add: genpd_queue_power_off_work_def queue_work_def)

lemma walk_frame_inc [simp]: "walk_frame s (genpd_sd_counter_inc g s)"
  by (simp add: walk_frame_def)

lemma walk_frame_dec [simp]: "walk_frame s (snd (genpd_sd_counter_dec g s))"
  by (simp add: walk_frame_def)


lemma excess_inc:
  "atomic_read (sd_count (domains s g)) < 2 ^ 31 - 1 \<Longrightarrow>
   excess (genpd_sd_counter_inc g s) m = excess s m + (if m = g then 1 else 0)"
  by (simp add: excess_def active_slaves_def atomic_read_inc)

lemma excess_dec:
  "0 < atomic_read (sd_count (domains s g)) \<Longrightarrow>
   excess (snd (genpd_sd_counter_dec g s)) m = excess s m - (if m = g then 1 else 0)"
  by (simp add: excess_def active_slaves_def atomic_read_dec atomic_read_pos_nonzero)

lemma sd_count_pos_excess: "0 < excess s m \<Longrightarrow> 0 < atomic_read (sd_count (domains s m))"
  by (simp add: excess_def)

text \<open>The room that a counter has below the number of links of its master.\<close>

lemma filter_disjoint_length:
  "(\<And>x. x \<in> set xs \<Longrightarrow> \<not> (P x \<and> Q x)) \<Longrightarrow>
   length (filter P xs) + length (filter Q xs) \<le> length xs"
  by (induction xs) auto

lemma active_busy_le:
  "locked_off s \<Longrightarrow>
   active_slaves s m + busy_slaves s m \<le> length (master_links (domains s m))"
  unfolding active_slaves_def busy_slaves_def
  by (rule filter_disjoint_length) (auto simp: locked_off_def)

lemma headroom:
  assumes "links_bounded s" and "locked_off s" and "excess s m < int (busy_slaves s m)"
  shows "atomic_read (sd_count (domains s m)) < 2 ^ 31 - 1"
proof -
  have "atomic_read (sd_count (domains s m)) = int (active_slaves s m) + excess s m"
    by (simp add: excess_def)
  also have "\<dots> < int (active_slaves s m) + int (busy_slaves s m)"
    using assms(3) by simp
  also have "\<dots> \<le> int (length (master_links (domains s m)))"
    using active_busy_le [OF assms(2), of m] by linarith
  finally have a: "atomic_read (sd_count (domains s m)) < int (length (master_links (domains s m)))" .
  have "length (master_links (domains s m)) < 2 ^ 31"
    using assms(1) by (simp add: links_bounded_def)
  then have "int (length (master_links (domains s m))) < 2 ^ 31" by simp
  with a show ?thesis by linarith
qed

text \<open>The loop that steps back over the masters.\<close>


lemma links_from_simps [simp]:
  "links_from m [] = 0"
  "links_from m (l # ls) = (if master l = m then 1 else 0) + links_from m ls"
  "links_from m (xs @ ys) = links_from m xs + links_from m ys"
  "links_from m (rev xs) = links_from m xs"
  by (simp_all add: links_from_def rev_filter [symmetric])

lemma fold_dec_and_queue_fields [simp]:
  "master_links (domains (fold dec_and_queue ls s) x) = master_links (domains s x)"
  "slave_links (domains (fold dec_and_queue ls s) x) = slave_links (domains s x)"
  "lock (domains (fold dec_and_queue ls s) x) = lock (domains s x)"
  by (induction ls arbitrary: s) (simp_all add: dec_and_queue_def)

lemma walk_frame_fold [simp]: "walk_frame s (fold dec_and_queue ls s)"
  by (simp add: walk_frame_def)


lemma fold_dec_and_queue_sd_count:
  "(\<And>m. int (links_from m ls) \<le> atomic_read (sd_count (domains s m))) \<Longrightarrow>
   atomic_read (sd_count (domains (fold dec_and_queue ls s) x))
     = atomic_read (sd_count (domains s x)) - int (links_from x ls)"
proof (induction ls arbitrary: s)
  case Nil
  then show ?case by simp
next
  case (Cons l ls)
  let ?s1 = "dec_and_queue l s"
  have pos: "0 < atomic_read (sd_count (domains s (master l)))"
    using Cons.prems [of "master l"] by simp
  have s1: "atomic_read (sd_count (domains ?s1 m))
      = atomic_read (sd_count (domains s m)) - (if m = master l then 1 else 0)" for m
    using atomic_read_dec_fields [OF pos, of m] by (simp add: dec_and_queue_def)
  have "int (links_from m ls) \<le> atomic_read (sd_count (domains ?s1 m))" for m
    using Cons.prems [of m] by (cases "m = master l") (simp_all add: s1)
  from Cons.IH [OF this] show ?case by (simp add: s1)
qed

lemma fold_dec_and_queue_excess:
  assumes "\<And>m. int (links_from m ls) \<le> excess s m"
  shows "excess (fold dec_and_queue ls s) x = excess s x - int (links_from x ls)"
proof -
  have "int (links_from m ls) \<le> atomic_read (sd_count (domains s m))" for m
    using assms [of m] by (simp add: excess_def)
  from fold_dec_and_queue_sd_count [OF this, of x]
  show ?thesis by (simp add: excess_def active_slaves_def)
qed

text \<open>The loop over the masters.\<close>

lemma poweron_masters_excess:
  assumes K: "keeps_excess poweron"
  shows "poweron_masters poweron pos ls s = Some (r, pos', s') \<Longrightarrow> links_wf s \<Longrightarrow>
     links_bounded s \<Longrightarrow> locked_off s \<Longrightarrow> (\<And>m. 0 \<le> excess s m) \<Longrightarrow>
     (\<And>m. excess s m + int (links_from m ls) \<le> int (busy_slaves s m)) \<Longrightarrow>
     walk_frame s s'
     \<and> (\<exists>done. pos' = rev done @ pos \<and> (r = 0 \<longrightarrow> done = ls)
            \<and> (\<forall>m. excess s' m = excess s m + int (links_from m done)))"
proof (induction ls arbitrary: pos s)
  case Nil
  then show ?case by simp
next
  case (Cons l ls)
  let ?si = "genpd_sd_counter_inc (master l) s"
  from Cons.prems(1) obtain r1 s1 where c: "poweron (master l) ?si = Some (r1, s1)"
    by (auto split: option.splits)
  have "excess s (master l) < int (busy_slaves s (master l))"
    using Cons.prems(6) [of "master l"] by simp
  from headroom [OF Cons.prems(3,4) this]
  have xi: "excess ?si m = excess s m + (if m = master l then 1 else 0)" for m
    by (rule excess_inc)
  have fi: "walk_frame s ?si" by simp
  have wi: "links_wf ?si" using Cons.prems(2) walk_frame_links_wf [OF fi] by simp
  have bi: "links_bounded ?si" using Cons.prems(3) walk_frame_links_bounded [OF fi] by simp
  have oi: "locked_off ?si" using walk_frame_locked_off [OF fi Cons.prems(4)] .
  have ei: "0 \<le> excess ?si m" for m using Cons.prems(5) [of m] by (simp add: xi)
  have ui: "excess ?si m + int (links_from m ls) \<le> int (busy_slaves ?si m)" for m
    using Cons.prems(6) [of m] by (auto simp: xi walk_frame_busy [OF fi])
  have "excess ?si m \<le> int (busy_slaves ?si m)" for m
    using ui [of m] by linarith
  with wi bi oi ei have "walk_pre ?si" by (simp add: walk_pre_def)
  with K c have f1: "walk_frame ?si s1" and e1: "\<And>m. excess s1 m = excess ?si m"
    unfolding keeps_excess_def by blast+
  have f01: "walk_frame s s1" using walk_frame_trans [OF fi f1] .
  show ?case
  proof (cases "r1 = 0")
    case False
    with Cons.prems(1) c have r: "r = r1" "pos' = pos"
      and s': "s' = snd (genpd_sd_counter_dec (master l) s1)"
      by simp_all
    have "0 < excess s1 (master l)"
      using e1 [of "master l"] Cons.prems(5) [of "master l"] by (simp add: xi)
    then have nz: "0 < atomic_read (sd_count (domains s1 (master l)))"
      by (rule sd_count_pos_excess)
    have "excess s' m = excess s m" for m
      using e1 [of m] by (simp add: s' excess_dec [OF nz] xi)
    moreover have "walk_frame s s'"
      unfolding s' using walk_frame_trans [OF f01 walk_frame_dec] .
    ultimately show ?thesis using r False by simp
  next
    case True
    with Cons.prems(1) c have rest: "poweron_masters poweron (l # pos) ls s1 = Some (r, pos', s')"
      by simp
    have w1: "links_wf s1" using walk_frame_links_wf [OF f01] Cons.prems(2) by simp
    have b1: "links_bounded s1" using walk_frame_links_bounded [OF f01] Cons.prems(3) by simp
    have o1: "locked_off s1" using walk_frame_locked_off [OF f01 Cons.prems(4)] .
    have n1: "0 \<le> excess s1 m" for m using e1 [of m] ei [of m] by simp
    have u1: "excess s1 m + int (links_from m ls) \<le> int (busy_slaves s1 m)" for m
      using ui [of m] by (simp add: e1 walk_frame_busy [OF f1])
    from Cons.IH [OF rest w1 b1 o1 n1 u1] obtain dn where f: "walk_frame s1 s'"
      and p: "pos' = rev dn @ l # pos" and d: "r = 0 \<longrightarrow> dn = ls"
      and e: "\<And>m. excess s' m = excess s1 m + int (links_from m dn)"
      by blast
    have "pos' = rev (l # dn) @ pos" using p by simp
    moreover have "r = 0 \<longrightarrow> l # dn = l # ls" using d by simp
    moreover have "excess s' m = excess s m + int (links_from m (l # dn))" for m
      using e [of m] e1 [of m] by (auto simp: xi)
    ultimately show ?thesis using walk_frame_trans [OF f01 f] by blast
  qed
qed

text \<open>The status or the mutex of one domain changes.\<close>


lemma count_status_on:
  assumes "st g \<noteq> GPD_STATE_ACTIVE"
    and "\<And>x. st' x = (if x = g then GPD_STATE_ACTIVE else st x)"
  shows "length (filter (\<lambda>l. st' (slave l) = GPD_STATE_ACTIVE) xs)
     = length (filter (\<lambda>l. st (slave l) = GPD_STATE_ACTIVE) xs)
       + length (filter (\<lambda>l. slave l = g) xs)"
  using assms by (induction xs) auto

lemma count_status_off:
  assumes "st g = GPD_STATE_ACTIVE"
    and "\<And>x. st' x = (if x = g then GPD_STATE_POWER_OFF else st x)"
  shows "length (filter (\<lambda>l. st' (slave l) = GPD_STATE_ACTIVE) xs)
       + length (filter (\<lambda>l. slave l = g) xs)
     = length (filter (\<lambda>l. st (slave l) = GPD_STATE_ACTIVE) xs)"
  using assms by (induction xs) auto


lemma count_lock_on:
  assumes "\<not> lk g" and "\<And>x. lk' x = (x = g \<or> lk x)"
  shows "length (filter (\<lambda>l. lk' (slave l)) xs)
     = length (filter (\<lambda>l. lk (slave l)) xs) + length (filter (\<lambda>l. slave l = g) xs)"
  using assms by (induction xs) auto


lemma active_slaves_power_on:
  assumes "status (domains s g) \<noteq> GPD_STATE_ACTIVE"
  shows "active_slaves (upd_domain g (\<lambda>d. d\<lparr>status := GPD_STATE_ACTIVE\<rparr>) s) m
     = active_slaves s m + length (filter (\<lambda>l. slave l = g) (master_links (domains s m)))"
proof -
  let ?s' = "upd_domain g (\<lambda>d. d\<lparr>status := GPD_STATE_ACTIVE\<rparr>) s"
  have ml: "master_links (domains ?s' m) = master_links (domains s m)"
    by (simp add: upd_domain_def)
  have st: "status (domains ?s' x) = (if x = g then GPD_STATE_ACTIVE else status (domains s x))" for x
    by (simp add: upd_domain_def)
  show ?thesis
    unfolding active_slaves_def ml
    by (rule count_status_on [where st = "\<lambda>x. status (domains s x)", OF assms st])
qed

lemma active_slaves_power_off:
  assumes "status (domains s g) = GPD_STATE_ACTIVE"
  shows "active_slaves (upd_domain g (\<lambda>d. d\<lparr>status := GPD_STATE_POWER_OFF\<rparr>) s) m
       + length (filter (\<lambda>l. slave l = g) (master_links (domains s m)))
     = active_slaves s m"
proof -
  let ?s' = "upd_domain g (\<lambda>d. d\<lparr>status := GPD_STATE_POWER_OFF\<rparr>) s"
  have ml: "master_links (domains ?s' m) = master_links (domains s m)"
    by (simp add: upd_domain_def)
  have st: "status (domains ?s' x) = (if x = g then GPD_STATE_POWER_OFF else status (domains s x))" for x
    by (simp add: upd_domain_def)
  show ?thesis
    unfolding active_slaves_def ml
    by (rule count_status_off [where st = "\<lambda>x. status (domains s x)", OF assms st])
qed

lemma links_wf_count:
  "links_wf s \<Longrightarrow>
   length (filter (\<lambda>l. slave l = g) (master_links (domains s m)))
     = links_from m (slave_links (domains s g))"
  by (simp add: links_wf_def links_from_def)


lemma busy_slaves_lock:
  assumes "\<not> lock (domains s g)" and "links_wf s"
  shows "busy_slaves (upd_domain g (\<lambda>d. d\<lparr>lock := True\<rparr>) s) m
     = busy_slaves s m + links_from m (slave_links (domains s g))"
proof -
  let ?s' = "upd_domain g (\<lambda>d. d\<lparr>lock := True\<rparr>) s"
  have ml: "master_links (domains ?s' m) = master_links (domains s m)"
    by (simp add: upd_domain_def)
  have lk: "lock (domains ?s' x) = (x = g \<or> lock (domains s x))" for x
    by (simp add: upd_domain_def)
  have "busy_slaves ?s' m
      = busy_slaves s m + length (filter (\<lambda>l. slave l = g) (master_links (domains s m)))"
    unfolding busy_slaves_def ml
    by (rule count_lock_on [where lk = "\<lambda>x. lock (domains s x)", OF assms(1) lk])
  then show ?thesis using links_wf_count [OF assms(2), of g m] by simp
qed

text \<open>\<open>__genpd_poweron\<close> under the mutex of its domain.\<close>

lemma body_excess:
  assumes K: "keeps_excess poweron"
    and B: "dunder_genpd_poweron_body poweron g s = Some (r, s')"
    and L: "lock (domains s g)" and W: "links_wf s" and N: "\<And>m. 0 \<le> excess s m"
    and LB: "links_bounded s"
    and LO: "\<And>x. lock (domains s x) \<Longrightarrow> x \<noteq> g \<Longrightarrow> status (domains s x) \<noteq> GPD_STATE_ACTIVE"
    and S: "\<And>m. excess s m + int (links_from m (slave_links (domains s g)))
                  \<le> int (busy_slaves s m)"
  shows "(\<forall>x. master_links (domains s' x) = master_links (domains s x)
            \<and> slave_links (domains s' x) = slave_links (domains s x)
            \<and> lock (domains s' x) = lock (domains s x))
     \<and> (\<forall>x. lock (domains s x) \<and> x \<noteq> g \<longrightarrow> status (domains s' x) = status (domains s x))
     \<and> (\<forall>m. excess s' m = excess s m)"
  using B
proof (cases rule: dunder_genpd_poweron_body_cases)
  case early
  then show ?thesis by simp
next
  case (master_failed pos s1)
  have O: "locked_off s" using LO master_failed(1) by (auto simp: locked_off_def)
  from poweron_masters_excess [OF K master_failed(2) W LB O N S] obtain dn
    where f: "walk_frame s s1" and p: "pos = rev dn"
      and e: "\<And>m. excess s1 m = excess s m + int (links_from m dn)"
    by auto
  have "int (links_from m pos) \<le> excess s1 m" for m
    using e [of m] N [of m] by (simp add: p)
  from fold_dec_and_queue_excess [OF this]
  have "excess s' m = excess s m" for m
    using e [of m] by (simp add: master_failed(4) p)
  moreover have "walk_frame s s'"
    unfolding master_failed(4) using walk_frame_trans [OF f walk_frame_fold] .
  ultimately show ?thesis by (simp add: walk_frame_def)
next
  case (power_on_failed pos s1)
  let ?s2 = "snd (genpd_power_on g True s1)"
  have O: "locked_off s" using LO power_on_failed(1) by (auto simp: locked_off_def)
  from poweron_masters_excess [OF K power_on_failed(2) W LB O N S] obtain dn
    where f: "walk_frame s s1" and p: "pos = rev dn"
      and e: "\<And>m. excess s1 m = excess s m + int (links_from m dn)"
    by auto
  have t2: "topo ?s2 = topo s1" by simp
  have "int (links_from m pos) \<le> excess ?s2 m" for m
    using e [of m] N [of m] by (simp add: p excess_topo [OF t2])
  from fold_dec_and_queue_excess [OF this]
  have "excess s' m = excess s m" for m
    using e [of m] by (simp add: power_on_failed(5) p excess_topo [OF t2])
  moreover have "walk_frame s s'"
    unfolding power_on_failed(5)
    using walk_frame_trans [OF f walk_frame_trans [OF walk_frame_topo [OF t2] walk_frame_fold]] .
  ultimately show ?thesis by (simp add: walk_frame_def)
next
  case (powered_on pos s1)
  let ?s2 = "snd (genpd_power_on g True s1)"
  have O: "locked_off s" using LO powered_on(1) by (auto simp: locked_off_def)
  from poweron_masters_excess [OF K powered_on(2) W LB O N S] obtain dn
    where f: "walk_frame s s1" and d: "dn = slave_links (domains s g)"
      and e: "\<And>m. excess s1 m = excess s m + int (links_from m dn)"
    by auto
  have t2: "topo ?s2 = topo s1" by simp
  have f2: "walk_frame s ?s2" using walk_frame_trans [OF f walk_frame_topo [OF t2]] .
  have st: "status (domains ?s2 g) \<noteq> GPD_STATE_ACTIVE"
    using f2 L powered_on(1) by (simp add: walk_frame_def)
  have ml: "master_links (domains ?s2 m) = master_links (domains s m)" for m
    using f2 by (simp add: walk_frame_def)
  have "excess s' m = excess s m" for m
  proof -
    have "active_slaves s' m = active_slaves ?s2 m + links_from m dn"
      unfolding powered_on(5) d
      using active_slaves_power_on [OF st, of m] links_wf_count [OF W, of g m] by (simp add: ml)
    moreover have "sd_count (domains s' m) = sd_count (domains ?s2 m)"
      by (simp add: powered_on(5) upd_domain_def)
    ultimately have "excess s' m = excess ?s2 m - int (links_from m dn)"
      by (simp add: excess_def)
    then show ?thesis using e [of m] by (simp add: excess_topo [OF t2])
  qed
  moreover have "master_links (domains s' x) = master_links (domains s x)
      \<and> slave_links (domains s' x) = slave_links (domains s x)
      \<and> lock (domains s' x) = lock (domains s x)" for x
    using f2 by (simp add: powered_on(5) upd_domain_def walk_frame_def)
  moreover have "lock (domains s x) \<and> x \<noteq> g \<longrightarrow> status (domains s' x) = status (domains s x)" for x
    using f2 by (simp add: powered_on(5) upd_domain_def walk_frame_def)
  ultimately show ?thesis by blast
qed

lemma keeps_excess_genpd_poweron: "keeps_excess (genpd_poweron n)"
proof (induction n)
  case 0
  then show ?case by (simp add: keeps_excess_def)
next
  case (Suc n)
  show ?case
    unfolding keeps_excess_def
  proof (intro allI impI)
    fix g s r s'
    assume a: "genpd_poweron (Suc n) g s = Some (r, s')" and P: "walk_pre s"
    from P have W: "links_wf s" and LB: "links_bounded s" and O: "locked_off s"
      and N: "\<And>m. 0 \<le> excess s m" and U: "\<And>m. excess s m \<le> int (busy_slaves s m)"
      by (simp_all add: walk_pre_def)
    from a have nl: "\<not> lock (domains s g)" by (auto simp: mutex_lock_def split: if_splits)
    let ?s1 = "upd_domain g (\<lambda>d. d\<lparr>lock := True\<rparr>) s"
    from a nl obtain s2 where b: "dunder_genpd_poweron_body (genpd_poweron n) g ?s1 = Some (r, s2)"
      and u: "s' = mutex_unlock g s2"
      by (auto simp: mutex_lock_def split: option.splits)
    have W1: "links_wf ?s1" using W by (simp add: links_wf_def upd_domain_def)
    have e1: "excess ?s1 m = excess s m" for m
      by (rule excess_cong) (simp_all add: upd_domain_def)
    have N1: "0 \<le> excess ?s1 m" for m using N e1 [of m] by simp
    have L1: "lock (domains ?s1 g)" by (simp add: upd_domain_def)
    have LB1: "links_bounded ?s1" using LB by (simp add: links_bounded_def upd_domain_def)
    have LO1: "status (domains ?s1 x) \<noteq> GPD_STATE_ACTIVE"
      if "lock (domains ?s1 x)" "x \<noteq> g" for x
      using that O by (simp add: locked_off_def upd_domain_def)
    have sl1: "slave_links (domains ?s1 g) = slave_links (domains s g)"
      by (simp add: upd_domain_def)
    have S1: "excess ?s1 m + int (links_from m (slave_links (domains ?s1 g)))
        \<le> int (busy_slaves ?s1 m)" for m
      using U [of m] by (simp add: e1 sl1 busy_slaves_lock [OF nl W])
    from body_excess [OF Suc b L1 W1 N1 LB1 LO1 S1]
    have l2: "\<And>x. master_links (domains s2 x) = master_links (domains ?s1 x)
            \<and> slave_links (domains s2 x) = slave_links (domains ?s1 x)
            \<and> lock (domains s2 x) = lock (domains ?s1 x)"
      and s2: "\<And>x. lock (domains ?s1 x) \<and> x \<noteq> g \<longrightarrow> status (domains s2 x) = status (domains ?s1 x)"
      and e2: "\<And>m. excess s2 m = excess ?s1 m"
      by blast+
    have "walk_frame s s'"
      unfolding walk_frame_def
    proof (intro conjI allI impI)
      fix x
      show "master_links (domains s' x) = master_links (domains s x)"
        and "slave_links (domains s' x) = slave_links (domains s x)"
        and "lock (domains s' x) = lock (domains s x)"
        using l2 [of x] nl by (auto simp: u mutex_unlock_def upd_domain_def)
      assume "lock (domains s x)"
      then have "lock (domains ?s1 x) \<and> x \<noteq> g" using nl by (auto simp: upd_domain_def)
      with s2 [of x] show "status (domains s' x) = status (domains s x)"
        by (auto simp: u mutex_unlock_def upd_domain_def)
    qed
    moreover have "excess s' m = excess s m" for m
    proof -
      have "excess s' m = excess s2 m"
        by (rule excess_cong) (simp_all add: u mutex_unlock_def upd_domain_def)
      then show ?thesis using e2 [of m] e1 [of m] by simp
    qed
    ultimately show "walk_frame s s' \<and> (\<forall>m. excess s' m = excess s m)" by blast
  qed
qed

text \<open>The invariant.\<close>


lemma sd_count_inv_excess: "sd_count_inv s = (\<forall>m. excess s m = 0)"
  by (auto simp: sd_count_inv_def excess_def)

lemma unlocked_walk_frame: "walk_frame s s' \<Longrightarrow> unlocked s' = unlocked s"
  by (simp add: unlocked_def walk_frame_def)


lemma dag_inv_genpd_poweron:
  assumes "dag_inv s" and "links_bounded s" and "genpd_poweron n g s = Some (r, s')"
  shows "dag_inv s' \<and> (\<forall>m. master_links (domains s' m) = master_links (domains s m))"
proof -
  have W: "links_wf s" and E: "\<forall>m. excess s m = 0" and U: "unlocked s"
    using assms(1) by (simp_all add: dag_inv_def sd_count_inv_excess)
  have "locked_off s" using U by (simp add: locked_off_def unlocked_def)
  with W E assms(2) have "walk_pre s" by (simp add: walk_pre_def)
  with keeps_excess_genpd_poweron [of n] assms(3)
  have f: "walk_frame s s'" and e: "\<forall>m. excess s' m = excess s m"
    unfolding keeps_excess_def by blast+
  have "dag_inv s'"
    using W E U e walk_frame_links_wf [OF f] unlocked_walk_frame [OF f]
    by (simp add: dag_inv_def sd_count_inv_excess)
  then show ?thesis using f by (simp add: walk_frame_def)
qed


lemma not_off_iff: "(st \<noteq> GPD_STATE_POWER_OFF) = (st = GPD_STATE_ACTIVE)"
  by (cases st) simp_all

lemma dag_inv_topo:
  assumes "topo s' = topo s"
  shows "dag_inv s' = dag_inv s"
proof -
  have "unlocked s' = unlocked s" using assms by (simp add: unlocked_def topo_eq_iff)
  moreover have "sd_count_inv s' = sd_count_inv s"
    by (simp add: sd_count_inv_excess excess_topo [OF assms])
  ultimately show ?thesis by (simp add: dag_inv_def links_wf_topo [OF assms])
qed


lemma dag_inv_genpd_poweroff:
  assumes "dag_inv s"
  shows "dag_inv (snd (genpd_poweroff g a s))
     \<and> (\<forall>m. master_links (domains (snd (genpd_poweroff g a s)) m) = master_links (domains s m))"
proof (cases rule: genpd_poweroff_cases [of g a s])
  case unchanged
  then show ?thesis using assms dag_inv_topo [OF unchanged] by (simp add: topo_eq_iff)
next
  case (powered_off s2)
  let ?s3 = "upd_domain g (\<lambda>d. d\<lparr>status := GPD_STATE_POWER_OFF\<rparr>) s2"
  let ?ls = "slave_links (domains s g)"
  let ?s' = "fold dec_and_queue ?ls ?s3"
  have I2: "dag_inv s2" using assms dag_inv_topo [OF powered_off(1)] by simp
  then have W2: "links_wf s2" and E2: "\<And>m. excess s2 m = 0" and U2: "unlocked s2"
    by (simp_all add: dag_inv_def sd_count_inv_excess)
  have st2: "status (domains s2 g) = GPD_STATE_ACTIVE"
    using powered_off(1,2) by (simp add: topo_eq_iff not_off_iff)
  have sl: "slave_links (domains s2 g) = ?ls"
    using powered_off(1) by (simp add: topo_eq_iff)
  have e3: "excess ?s3 m = int (links_from m ?ls)" for m
  proof -
    have "sd_count (domains ?s3 m) = sd_count (domains s2 m)" by (simp add: upd_domain_def)
    moreover have "atomic_read (sd_count (domains s2 m)) = int (active_slaves s2 m)"
      using E2 [of m] by (simp add: excess_def)
    moreover have "active_slaves ?s3 m + links_from m ?ls = active_slaves s2 m"
      using active_slaves_power_off [OF st2, of m] links_wf_count [OF W2, of g m] sl by simp
    ultimately show ?thesis by (simp add: excess_def)
  qed
  have "int (links_from m ?ls) \<le> excess ?s3 m" for m by (simp add: e3)
  from fold_dec_and_queue_excess [OF this]
  have e': "excess ?s' m = 0" for m by (simp add: e3)
  have W3: "links_wf ?s3" using W2 by (simp add: links_wf_def upd_domain_def)
  have U3: "unlocked ?s3" using U2 by (simp add: unlocked_def upd_domain_def)
  have "links_wf ?s'" using W3 walk_frame_links_wf [OF walk_frame_fold, of ?ls ?s3] by simp
  moreover have "unlocked ?s'" using U3 unlocked_walk_frame [OF walk_frame_fold, of ?ls ?s3] by simp
  ultimately have "dag_inv (snd (genpd_poweroff g a s))"
    using e' by (simp add: powered_off(5) dag_inv_def sd_count_inv_excess)
  moreover have "master_links (domains (snd (genpd_poweroff g a s)) m) = master_links (domains s m)" for m
    using powered_off(1) by (simp add: powered_off(5) upd_domain_def topo_eq_iff)
  ultimately show ?thesis by blast
qed

text \<open>Adding and removing a link.\<close>


lemma add_subdomain_topo:
  assumes "pm_genpd_add_subdomain ma sa s = Some (r, s')" and "unlocked s"
  shows "topo s' = topo s
     \<or> (\<exists>m sd. \<forall>x. status (domains s' x) = status (domains s x)
            \<and> lock (domains s' x) = lock (domains s x)
            \<and> master_links (domains s' x)
                = master_links (domains s x) @ (if x = m then [\<lparr>master = m, slave = sd\<rparr>] else [])
            \<and> slave_links (domains s' x)
                = slave_links (domains s x) @ (if x = sd then [\<lparr>master = m, slave = sd\<rparr>] else [])
            \<and> sd_count (domains s' x)
                = sd_count (domains s x)
                  + (if x = m \<and> status (domains s sd) = GPD_STATE_ACTIVE then 1 else 0))"
proof (cases "\<exists>m sd. ma = Some m \<and> sa = Some sd \<and> m \<noteq> sd \<and> alloc_ok s (allocs s)
    \<and> \<not> (status (domains s m) = GPD_STATE_POWER_OFF \<and> status (domains s sd) \<noteq> GPD_STATE_POWER_OFF)
    \<and> \<not> list_ex (\<lambda>itr. slave itr = sd \<and> master itr = m) (master_links (domains s m))")
  case False
  then have "topo s' = topo s"
    using assms
    by (cases ma; cases sa)
       (auto simp: pm_genpd_add_subdomain_def kzalloc_def mutex_lock_def mutex_unlock_def Let_def
          topo_eq_iff upd_domain_def unlocked_def split: if_splits)
  then show ?thesis ..
next
  case True
  then obtain m sd where h: "ma = Some m" "sa = Some sd" "m \<noteq> sd" "alloc_ok s (allocs s)"
      "\<not> (status (domains s m) = GPD_STATE_POWER_OFF
          \<and> status (domains s sd) \<noteq> GPD_STATE_POWER_OFF)"
      "\<not> list_ex (\<lambda>itr. slave itr = sd \<and> master itr = m) (master_links (domains s m))"
    by blast
  have "\<forall>x. status (domains s' x) = status (domains s x)
            \<and> lock (domains s' x) = lock (domains s x)
            \<and> master_links (domains s' x)
                = master_links (domains s x) @ (if x = m then [\<lparr>master = m, slave = sd\<rparr>] else [])
            \<and> slave_links (domains s' x)
                = slave_links (domains s x) @ (if x = sd then [\<lparr>master = m, slave = sd\<rparr>] else [])
            \<and> sd_count (domains s' x)
                = sd_count (domains s x)
                  + (if x = m \<and> status (domains s sd) = GPD_STATE_ACTIVE then 1 else 0)"
    using assms h
    by (auto simp: pm_genpd_add_subdomain_def kzalloc_def mutex_lock_def mutex_unlock_def Let_def
          upd_domain_def unlocked_def genpd_sd_counter_inc_eq not_off_iff)
  then show ?thesis by blast
qed


lemma dag_inv_add_subdomain:
  assumes "dag_inv s" and "pm_genpd_add_subdomain ma sa s = Some (r, s')"
    and LB: "\<And>m. Suc (length (master_links (domains s m))) < 2 ^ 31"
  shows "dag_inv s'
     \<and> (\<forall>m. length (master_links (domains s' m)) \<le> Suc (length (master_links (domains s m))))"
proof -
  have W: "links_wf s" and C: "sd_count_inv s" and U: "unlocked s"
    using assms(1) by (simp_all add: dag_inv_def)
  from add_subdomain_topo [OF assms(2) U] show ?thesis
  proof
    assume t: "topo s' = topo s"
    then have "dag_inv s'" using assms(1) dag_inv_topo by blast
    then show ?thesis using t by (simp add: topo_eq_iff)
  next
    assume "\<exists>m sd. \<forall>x. status (domains s' x) = status (domains s x)
            \<and> lock (domains s' x) = lock (domains s x)
            \<and> master_links (domains s' x)
                = master_links (domains s x) @ (if x = m then [\<lparr>master = m, slave = sd\<rparr>] else [])
            \<and> slave_links (domains s' x)
                = slave_links (domains s x) @ (if x = sd then [\<lparr>master = m, slave = sd\<rparr>] else [])
            \<and> sd_count (domains s' x)
                = sd_count (domains s x)
                  + (if x = m \<and> status (domains s sd) = GPD_STATE_ACTIVE then 1 else 0)"
    then obtain m sd where
      st: "\<And>x. status (domains s' x) = status (domains s x)"
      and lk: "\<And>x. lock (domains s' x) = lock (domains s x)"
      and ml: "\<And>x. master_links (domains s' x)
                = master_links (domains s x) @ (if x = m then [\<lparr>master = m, slave = sd\<rparr>] else [])"
      and sl: "\<And>x. slave_links (domains s' x)
                = slave_links (domains s x) @ (if x = sd then [\<lparr>master = m, slave = sd\<rparr>] else [])"
      and sc: "\<And>x. sd_count (domains s' x)
                = sd_count (domains s x)
                  + (if x = m \<and> status (domains s sd) = GPD_STATE_ACTIVE then 1 else 0)"
      by blast
    have c: "atomic_read (sd_count (domains s x)) = int (active_slaves s x)" for x
      using C by (simp add: sd_count_inv_def)
    have "active_slaves s m \<le> length (master_links (domains s m))"
      by (simp add: active_slaves_def)
    then have "int (active_slaves s m) < 2 ^ 31 - 1"
      using LB [of m] by simp
    then have hr: "atomic_read (sd_count (domains s m)) < 2 ^ 31 - 1" by (simp add: c)
    have "links_wf s'"
      using W by (auto simp: links_wf_def ml sl)
    moreover have "sd_count_inv s'"
      unfolding sd_count_inv_def
    proof
      fix x
      show "atomic_read (sd_count (domains s' x)) = int (active_slaves s' x)"
        using c [of x] atomic_read_inc [OF hr]
        by (auto simp: active_slaves_def st ml sc)
    qed
    moreover have "unlocked s'" using U by (simp add: unlocked_def lk)
    ultimately have "dag_inv s'" by (simp add: dag_inv_def)
    then show ?thesis by (simp add: ml)
  qed
qed


lemma filter_remove1_count:
  "l \<in> set xs \<Longrightarrow>
   length (filter P (remove1 l xs)) + (if P l then 1 else 0) = length (filter P xs)"
  by (induction xs) auto

lemma gpd_link_eq: "((l :: gpd_link) = l') = (master l = master l' \<and> slave l = slave l')"
  by (cases l, cases l') simp

lemma remove_subdomain_topo:
  assumes "pm_genpd_remove_subdomain ma sa s = Some (r, s')" and "unlocked s"
  shows "topo s' = topo s
     \<or> (\<exists>m sd l. l \<in> set (master_links (domains s m)) \<and> slave l = sd \<and> m \<noteq> sd
          \<and> (\<forall>x. status (domains s' x) = status (domains s x)
            \<and> lock (domains s' x) = lock (domains s x)
            \<and> master_links (domains s' x)
                = (if x = m then remove1 l (master_links (domains s x))
                   else master_links (domains s x))
            \<and> slave_links (domains s' x)
                = (if x = sd then remove1 l (slave_links (domains s x))
                   else slave_links (domains s x))
            \<and> sd_count (domains s' x)
                = sd_count (domains s x)
                  - (if x = m \<and> status (domains s sd) = GPD_STATE_ACTIVE
                        \<and> sd_count (domains s m) \<noteq> 0 then 1 else 0)))"
proof (cases "\<exists>m sd l. ma = Some m \<and> sa = Some sd
    \<and> \<not> (master_links (domains s sd) \<noteq> [] \<or> device_count (domains s sd) \<noteq> 0)
    \<and> find (\<lambda>link. slave link = sd) (master_links (domains s m)) = Some l")
  case False
  then have "topo s' = topo s"
    using assms
    by (cases ma; cases sa)
       (auto simp: pm_genpd_remove_subdomain_def mutex_lock_def mutex_unlock_def Let_def
          topo_eq_iff upd_domain_def unlocked_def split: if_splits option.splits)
  then show ?thesis ..
next
  case True
  then obtain m sd l where h: "ma = Some m" "sa = Some sd"
      "\<not> (master_links (domains s sd) \<noteq> [] \<or> device_count (domains s sd) \<noteq> 0)"
      "find (\<lambda>link. slave link = sd) (master_links (domains s m)) = Some l"
    by blast
  from h(4) have l: "l \<in> set (master_links (domains s m))" "slave l = sd"
    by (auto simp: find_Some_iff in_set_conv_nth)
  have ne: "m \<noteq> sd" using h(3) l(1) by auto
  have U: "\<not> lock (domains s x)" for x using assms(2) by (simp add: unlocked_def)
  define s4 where "s4 =
      upd_domain sd (\<lambda>d. d\<lparr>slave_links := remove1 l (slave_links d)\<rparr>)
        (upd_domain m (\<lambda>d. d\<lparr>master_links := remove1 l (master_links d)\<rparr>)
           (upd_domain sd (\<lambda>d. d\<lparr>lock := True\<rparr>) (upd_domain m (\<lambda>d. d\<lparr>lock := True\<rparr>) s)))"
  define s5 where "s5 =
      (if status (domains s4 sd) \<noteq> GPD_STATE_POWER_OFF
       then snd (genpd_sd_counter_dec m s4) else s4)"
  have "pm_genpd_remove_subdomain (Some m) (Some sd) s
      = Some (0, mutex_unlock m (mutex_unlock sd s5))"
    using h(3,4) l(2) ne U
    by (simp add: pm_genpd_remove_subdomain_def mutex_lock_def Let_def upd_domain_def
        s5_def s4_def)
  with assms(1) h(1,2) have s': "s' = mutex_unlock m (mutex_unlock sd s5)" by simp
  have f4: "status (domains s4 x) = status (domains s x)"
      "sd_count (domains s4 x) = sd_count (domains s x)"
      "lock (domains s4 x) = (x = m \<or> x = sd)"
      "master_links (domains s4 x)
         = (if x = m then remove1 l (master_links (domains s x)) else master_links (domains s x))"
      "slave_links (domains s4 x)
         = (if x = sd then remove1 l (slave_links (domains s x)) else slave_links (domains s x))"
    for x
    using ne U [of x] by (auto simp: s4_def upd_domain_def)
  have "\<forall>x. status (domains s' x) = status (domains s x)
            \<and> lock (domains s' x) = lock (domains s x)
            \<and> master_links (domains s' x)
                = (if x = m then remove1 l (master_links (domains s x))
                   else master_links (domains s x))
            \<and> slave_links (domains s' x)
                = (if x = sd then remove1 l (slave_links (domains s x))
                   else slave_links (domains s x))
            \<and> sd_count (domains s' x)
                = sd_count (domains s x)
                  - (if x = m \<and> status (domains s sd) = GPD_STATE_ACTIVE
                        \<and> sd_count (domains s m) \<noteq> 0 then 1 else 0)"
    using U by (auto simp: s' s5_def mutex_unlock_def upd_domain_def f4 not_off_iff)
  with l ne show ?thesis by blast
qed


lemma dag_inv_remove_subdomain:
  assumes "dag_inv s" and "pm_genpd_remove_subdomain ma sa s = Some (r, s')"
  shows "dag_inv s'
     \<and> (\<forall>m. length (master_links (domains s' m)) \<le> length (master_links (domains s m)))"
proof -
  have W: "links_wf s" and C: "sd_count_inv s" and U: "unlocked s"
    using assms(1) by (simp_all add: dag_inv_def)
  from remove_subdomain_topo [OF assms(2) U] show ?thesis
  proof
    assume t: "topo s' = topo s"
    then have "dag_inv s'" using assms(1) dag_inv_topo by blast
    then show ?thesis using t by (simp add: topo_eq_iff)
  next
    assume "\<exists>m sd l. l \<in> set (master_links (domains s m)) \<and> slave l = sd \<and> m \<noteq> sd
          \<and> (\<forall>x. status (domains s' x) = status (domains s x)
            \<and> lock (domains s' x) = lock (domains s x)
            \<and> master_links (domains s' x)
                = (if x = m then remove1 l (master_links (domains s x))
                   else master_links (domains s x))
            \<and> slave_links (domains s' x)
                = (if x = sd then remove1 l (slave_links (domains s x))
                   else slave_links (domains s x))
            \<and> sd_count (domains s' x)
                = sd_count (domains s x)
                  - (if x = m \<and> status (domains s sd) = GPD_STATE_ACTIVE
                        \<and> sd_count (domains s m) \<noteq> 0 then 1 else 0))"
    then obtain m sd l where lm: "l \<in> set (master_links (domains s m))"
      and lsd: "slave l = sd" and ne: "m \<noteq> sd"
      and st: "\<And>x. status (domains s' x) = status (domains s x)"
      and lk: "\<And>x. lock (domains s' x) = lock (domains s x)"
      and ml: "\<And>x. master_links (domains s' x)
                = (if x = m then remove1 l (master_links (domains s x))
                   else master_links (domains s x))"
      and sl: "\<And>x. slave_links (domains s' x)
                = (if x = sd then remove1 l (slave_links (domains s x))
                   else slave_links (domains s x))"
      and sc: "\<And>x. sd_count (domains s' x)
                = sd_count (domains s x)
                  - (if x = m \<and> status (domains s sd) = GPD_STATE_ACTIVE
                        \<and> sd_count (domains s m) \<noteq> 0 then 1 else 0)"
      by blast
    have W1: "\<And>g l. l \<in> set (master_links (domains s g)) \<Longrightarrow> master l = g"
      and W2: "\<And>g l. l \<in> set (slave_links (domains s g)) \<Longrightarrow> slave l = g"
      and W3: "\<And>m g. length (filter (\<lambda>l. slave l = g) (master_links (domains s m)))
                  = length (filter (\<lambda>l. master l = m) (slave_links (domains s g)))"
      using W by (auto simp: links_wf_def)
    have lmm: "master l = m" using W1 [OF lm] .
    have "l \<in> set (filter (\<lambda>l. slave l = sd) (master_links (domains s m)))"
      using lm lsd by simp
    then have "filter (\<lambda>l. slave l = sd) (master_links (domains s m)) \<noteq> []"
      by (metis empty_iff empty_set)
    then have "0 < length (filter (\<lambda>l. slave l = sd) (master_links (domains s m)))"
      by blast
    then have "filter (\<lambda>l. master l = m) (slave_links (domains s sd)) \<noteq> []"
      using W3 [of sd m] by auto
    then obtain l' where l': "l' \<in> set (slave_links (domains s sd))" "master l' = m"
      by (auto simp: filter_empty_conv)
    have "l' = l" using W2 [OF l'(1)] l'(2) lmm lsd by (simp add: gpd_link_eq)
    then have ls: "l \<in> set (slave_links (domains s sd))" using l'(1) by simp
    have "links_wf s'"
      unfolding links_wf_def
    proof (intro conjI allI ballI)
      fix g k assume "k \<in> set (master_links (domains s' g))"
      then show "master k = g" using W1 [of k g] by (auto simp: ml dest: notin_set_remove1 split: if_splits)
    next
      fix g k assume "k \<in> set (slave_links (domains s' g))"
      then show "slave k = g" using W2 [of k g] by (auto simp: sl dest: notin_set_remove1 split: if_splits)
    next
      fix m' g
      show "length (filter (\<lambda>l. slave l = g) (master_links (domains s' m')))
          = length (filter (\<lambda>l. master l = m') (slave_links (domains s' g)))"
        using W3 [of g m'] filter_remove1_count [OF lm, of "\<lambda>l. slave l = g"]
          filter_remove1_count [OF ls, of "\<lambda>l. master l = m'"] lmm lsd
        by (auto simp: ml sl split: if_splits)
    qed
    moreover have "sd_count_inv s'"
      unfolding sd_count_inv_def
    proof
      fix x
      have c: "atomic_read (sd_count (domains s x)) = int (active_slaves s x)"
        using C by (simp add: sd_count_inv_def)
      show "atomic_read (sd_count (domains s' x)) = int (active_slaves s' x)"
      proof (cases "x = m")
        case False
        then show ?thesis using c by (simp add: active_slaves_def st ml sc)
      next
        case True
        have cm: "atomic_read (sd_count (domains s m)) = int (active_slaves s m)"
          using c True by simp
        have a: "active_slaves s' m + (if status (domains s sd) = GPD_STATE_ACTIVE then 1 else 0)
            = active_slaves s m"
          using filter_remove1_count [OF lm, of "\<lambda>l. status (domains s (slave l)) = GPD_STATE_ACTIVE"] lsd
          by (simp add: active_slaves_def st ml)
        show ?thesis
        proof (cases "status (domains s sd) = GPD_STATE_ACTIVE")
          case False
          then show ?thesis using a cm True by (simp add: sc)
        next
          case active: True
          with a cm have pos: "0 < atomic_read (sd_count (domains s m))" by simp
          then have "sd_count (domains s m) \<noteq> 0" by (rule atomic_read_pos_nonzero)
          then have "sd_count (domains s' m) = sd_count (domains s m) - 1"
            using active by (simp add: sc)
          then show ?thesis using atomic_read_dec [OF pos] a cm active True by simp
        qed
      qed
    qed
    moreover have "unlocked s'" using U by (simp add: unlocked_def lk)
    ultimately have "dag_inv s'" by (simp add: dag_inv_def)
    moreover have "length (master_links (domains s' x)) \<le> length (master_links (domains s x))" for x
      by (simp add: ml length_remove1)
    ultimately show ?thesis by blast
  qed
qed


text \<open>The synchronous power-off walk.\<close>

lemma sync_frame_refl [simp]: "sync_frame W s s"
  by (simp add: sync_frame_def)

lemma sync_frame_trans: "sync_frame W s t \<Longrightarrow> sync_frame W t u \<Longrightarrow> sync_frame W s u"
  by (simp add: sync_frame_def)

lemma sync_frame_topo: "topo s' = topo s \<Longrightarrow> sync_frame W s s'"
  by (simp add: sync_frame_def topo_eq_iff)

lemma sync_frame_inc [simp]: "sync_frame W s (genpd_sd_counter_inc g s)"
  by (simp add: sync_frame_def)

lemma sync_frame_dec [simp]: "sync_frame W s (snd (genpd_sd_counter_dec g s))"
  by (simp add: sync_frame_def)

lemma sync_frame_links_wf: "sync_frame W s s' \<Longrightarrow> links_wf s' = links_wf s"
  by (rule links_wf_cong) (simp_all add: sync_frame_def)

lemma sync_frame_unlocked: "sync_frame W s s' \<Longrightarrow> unlocked s' = unlocked s"
  by (simp add: unlocked_def sync_frame_def)

lemma sync_off_keeps_None: "sync_off_keeps (\<lambda>_ _. None)"
  by (simp add: sync_off_keeps_def)

lemma sync_poweroff_masters_excess:
  assumes K: "sync_off_keeps sync"
  shows "sync_poweroff_masters sync ls s = Some s' \<Longrightarrow> links_wf s \<Longrightarrow>
     (\<And>m. int (links_from m ls) \<le> excess s m) \<Longrightarrow>
     sync_frame {} s s' \<and> (\<forall>m. excess s' m = excess s m - int (links_from m ls))"
proof (induction ls arbitrary: s)
  case Nil
  then show ?case by simp
next
  case (Cons l ls)
  let ?sd = "snd (genpd_sd_counter_dec (master l) s)"
  from Cons.prems(1) obtain s1 where c: "sync (master l) ?sd = Some s1"
    and rest: "sync_poweroff_masters sync ls s1 = Some s'"
    by (auto split: option.splits)
  have "0 < excess s (master l)" using Cons.prems(3) [of "master l"] by simp
  then have pos: "0 < atomic_read (sd_count (domains s (master l)))"
    by (rule sd_count_pos_excess)
  have xd: "excess ?sd m = excess s m - (if m = master l then 1 else 0)" for m
    using pos by (rule excess_dec)
  have fd: "sync_frame {} s ?sd" by simp
  have wd: "links_wf ?sd" using Cons.prems(2) sync_frame_links_wf [OF fd] by simp
  have nd: "0 \<le> excess ?sd m" for m
    using Cons.prems(3) [of m] by (auto simp: xd split: if_splits)
  from K c wd nd have f1: "sync_frame {} ?sd s1" and e1: "\<And>m. excess s1 m = excess ?sd m"
    unfolding sync_off_keeps_def by blast+
  have f01: "sync_frame {} s s1" using sync_frame_trans [OF fd f1] .
  have w1: "links_wf s1" using Cons.prems(2) sync_frame_links_wf [OF f01] by simp
  have u1: "int (links_from m ls) \<le> excess s1 m" for m
    using Cons.prems(3) [of m] by (auto simp: e1 xd split: if_splits)
  from Cons.IH [OF rest w1 u1] have f: "sync_frame {} s1 s'"
    and e: "\<And>m. excess s' m = excess s1 m - int (links_from m ls)"
    by blast+
  have "excess s' m = excess s m - int (links_from m (l # ls))" for m
    using e [of m] by (auto simp: e1 xd)
  then show ?case using sync_frame_trans [OF f01 f] by blast
qed

lemma sync_poweroff_body_excess:
  assumes K: "sync_off_keeps sync"
    and B: "pm_genpd_sync_poweroff_body sync timed g s = Some s'"
    and W: "links_wf s" and N: "\<And>m. 0 \<le> excess s m"
  shows "sync_frame {} s s' \<and> (\<forall>m. excess s' m = excess s m)"
proof (cases "status (domains s g) = GPD_STATE_POWER_OFF
    \<or> suspended_count (domains s g) \<noteq> device_count (domains s g)
    \<or> 0 < atomic_read (sd_count (domains s g))")
  case True
  then have "s' = s" using B by (auto simp: pm_genpd_sync_poweroff_body_def split: if_splits)
  then show ?thesis by simp
next
  case False
  let ?s1 = "snd (genpd_power_off g timed s)"
  let ?s2 = "upd_domain g (\<lambda>d. d\<lparr>status := GPD_STATE_POWER_OFF\<rparr>) ?s1"
  let ?ls = "slave_links (domains s g)"
  have t1: "topo ?s1 = topo s" by simp
  have q1: "status (domains ?s1 x) = status (domains s x)"
      "slave_links (domains ?s1 x) = slave_links (domains s x)"
      "master_links (domains ?s1 x) = master_links (domains s x)"
      "lock (domains ?s1 x) = lock (domains s x)" for x
    using t1 unfolding topo_eq_iff by blast+
  have st1: "status (domains ?s1 g) = GPD_STATE_ACTIVE"
    using False by (simp add: q1 not_off_iff)
  have sl: "slave_links (domains ?s2 g) = ?ls"
    by (simp add: q1 upd_domain_def)
  have r: "sync_poweroff_masters sync ?ls ?s2 = Some s'"
    using False B sl by (simp add: pm_genpd_sync_poweroff_body_def Let_def)
  have W1: "links_wf ?s1" using W links_wf_topo [OF t1] by simp
  have W2: "links_wf ?s2" using W1 by (simp add: links_wf_def upd_domain_def)
  have sl1: "slave_links (domains ?s1 g) = ?ls" by (simp add: q1)
  have e2: "excess ?s2 m = excess s m + int (links_from m ?ls)" for m
  proof -
    have "sd_count (domains ?s2 m) = sd_count (domains ?s1 m)" by (simp add: upd_domain_def)
    moreover have "active_slaves ?s2 m + links_from m ?ls = active_slaves ?s1 m"
      using active_slaves_power_off [OF st1, of m] links_wf_count [OF W1, of g m] sl1 by simp
    ultimately have "excess ?s2 m = excess ?s1 m + int (links_from m ?ls)"
      by (simp add: excess_def)
    then show ?thesis by (simp add: excess_topo [OF t1])
  qed
  have "int (links_from m ?ls) \<le> excess ?s2 m" for m using N [of m] by (simp add: e2)
  from sync_poweroff_masters_excess [OF K r W2 this]
  have f: "sync_frame {} ?s2 s'" and e: "\<And>m. excess s' m = excess ?s2 m - int (links_from m ?ls)"
    by blast+
  have "sync_frame {} s ?s2" by (simp add: sync_frame_def q1 upd_domain_def)
  from sync_frame_trans [OF this f] e show ?thesis by (simp add: e2)
qed

lemma sync_off_keeps_poweroff: "sync_off_keeps (pm_genpd_sync_poweroff n timed)"
proof (induction n)
  case 0
  show ?case
    unfolding sync_off_keeps_def
  proof (intro allI impI)
    fix g s s'
    assume a: "pm_genpd_sync_poweroff 0 timed g s = Some s'" and w: "links_wf s"
      and n: "\<forall>m. 0 \<le> excess s m"
    from a have b: "pm_genpd_sync_poweroff_body (\<lambda>_ _. None) timed g s = Some s'" by simp
    from n have "0 \<le> excess s m" for m by simp
    from sync_poweroff_body_excess [OF sync_off_keeps_None b w this]
    show "sync_frame {} s s' \<and> (\<forall>m. excess s' m = excess s m)" .
  qed
next
  case (Suc n)
  show ?case
    unfolding sync_off_keeps_def
  proof (intro allI impI)
    fix g s s'
    assume a: "pm_genpd_sync_poweroff (Suc n) timed g s = Some s'" and w: "links_wf s"
      and n: "\<forall>m. 0 \<le> excess s m"
    from a have b: "pm_genpd_sync_poweroff_body (pm_genpd_sync_poweroff n timed) timed g s = Some s'"
      by simp
    from n have "0 \<le> excess s m" for m by simp
    from sync_poweroff_body_excess [OF Suc b w this]
    show "sync_frame {} s s' \<and> (\<forall>m. excess s' m = excess s m)" .
  qed
qed

lemma dag_inv_sync_poweroff:
  assumes "dag_inv s" and "pm_genpd_sync_poweroff n timed g s = Some s'"
  shows "dag_inv s' \<and> (\<forall>m. master_links (domains s' m) = master_links (domains s m))"
proof -
  have W: "links_wf s" and E: "\<forall>m. excess s m = 0" and U: "unlocked s"
    using assms(1) by (simp_all add: dag_inv_def sd_count_inv_excess)
  from E have "\<forall>m. 0 \<le> excess s m" by simp
  with sync_off_keeps_poweroff [of n timed] assms(2) W
  have f: "sync_frame {} s s'" and e: "\<forall>m. excess s' m = excess s m"
    unfolding sync_off_keeps_def by blast+
  have "dag_inv s'"
    using W E U e sync_frame_links_wf [OF f] sync_frame_unlocked [OF f]
    by (simp add: dag_inv_def sd_count_inv_excess)
  then show ?thesis using f by (simp add: sync_frame_def)
qed

text \<open>
  The synchronous power-on walk: a call on a domain of a set that the walk never leaves
  does not return.
\<close>

lemma trap_cong:
  assumes "\<And>x. slave_links (domains s' x) = slave_links (domains s x)"
    and "\<And>x. x \<in> W \<Longrightarrow> status (domains s' x) = status (domains s x)"
  shows "trap W s' = trap W s"
  using assms by (simp add: trap_def stack_off_def)

lemma sync_traps_None: "sync_traps (\<lambda>_ _. None)"
  by (simp add: sync_traps_def)

lemma sync_poweron_masters_trap:
  assumes T: "sync_traps sync"
  shows "sync_poweron_masters sync ls s = Some s' \<Longrightarrow> trap W s \<Longrightarrow>
     trap W s' \<and> (\<forall>l \<in> set ls. master l \<notin> W)"
proof (induction ls arbitrary: s)
  case Nil
  then show ?case by simp
next
  case (Cons l ls)
  from Cons.prems(1) obtain s1 where c: "sync (master l) s = Some s1"
    and rest: "sync_poweron_masters sync ls (genpd_sd_counter_inc (master l) s1) = Some s'"
    by (auto split: option.splits)
  from T Cons.prems(2) have "(master l \<in> W \<longrightarrow> sync (master l) s = None)
      \<and> (\<forall>s'. sync (master l) s = Some s' \<longrightarrow> trap W s')"
    unfolding sync_traps_def by blast
  with c have nw: "master l \<notin> W" and t1: "trap W s1" by auto
  have "trap W (genpd_sd_counter_inc (master l) s1)"
    using t1 by (simp add: trap_cong [of "genpd_sd_counter_inc (master l) s1" s1 W])
  from Cons.IH [OF rest this] nw show ?case by simp
qed

lemma sync_poweron_body_trap:
  assumes T: "sync_traps sync" and "trap W s"
  shows "(g \<in> W \<longrightarrow> pm_genpd_sync_poweron_body sync timed g s = None)
     \<and> (\<forall>s'. pm_genpd_sync_poweron_body sync timed g s = Some s' \<longrightarrow> trap W s')"
proof (intro conjI allI impI)
  assume g: "g \<in> W"
  then have na: "status (domains s g) \<noteq> GPD_STATE_ACTIVE"
    and "\<exists>l \<in> set (slave_links (domains s g)). master l \<in> W"
    using assms(2) by (simp_all add: trap_def stack_off_def)
  then obtain l where l: "l \<in> set (slave_links (domains s g))" "master l \<in> W" by blast
  show "pm_genpd_sync_poweron_body sync timed g s = None"
  proof (cases "sync_poweron_masters sync (slave_links (domains s g)) s")
    case None
    with na show ?thesis by (simp add: pm_genpd_sync_poweron_body_def)
  next
    case (Some s1)
    from sync_poweron_masters_trap [OF T Some assms(2)] l show ?thesis by blast
  qed
next
  fix s' assume b: "pm_genpd_sync_poweron_body sync timed g s = Some s'"
  show "trap W s'"
  proof (cases "status (domains s g) = GPD_STATE_ACTIVE")
    case True
    with b have "s' = s" by (simp add: pm_genpd_sync_poweron_body_def)
    with assms(2) show ?thesis by simp
  next
    case False
    with b obtain s1 where m: "sync_poweron_masters sync (slave_links (domains s g)) s = Some s1"
      and e: "s' = upd_domain g (\<lambda>d. d\<lparr>status := GPD_STATE_ACTIVE\<rparr>)
                     (snd (genpd_power_on g timed s1))"
      by (auto simp: pm_genpd_sync_poweron_body_def split: option.splits)
    from sync_poweron_masters_trap [OF T m assms(2)] have t1: "trap W s1"
      and nm: "\<forall>l \<in> set (slave_links (domains s g)). master l \<notin> W"
      by blast+
    have gw: "g \<notin> W"
    proof
      assume "g \<in> W"
      then have "\<exists>l \<in> set (slave_links (domains s g)). master l \<in> W"
        using assms(2) by (simp add: trap_def)
      with nm show False by blast
    qed
    let ?s2 = "snd (genpd_power_on g timed s1)"
    have t2: "topo ?s2 = topo s1" by simp
    have q2: "status (domains ?s2 x) = status (domains s1 x)"
        "slave_links (domains ?s2 x) = slave_links (domains s1 x)" for x
      using t2 unfolding topo_eq_iff by blast+
    have "trap W s' = trap W s1"
    proof (rule trap_cong)
      fix x
      show "slave_links (domains s' x) = slave_links (domains s1 x)"
        by (simp add: e upd_domain_def q2)
      assume "x \<in> W"
      with gw have "x \<noteq> g" by blast
      then show "status (domains s' x) = status (domains s1 x)"
        by (simp add: e upd_domain_def q2)
    qed
    with t1 show ?thesis by simp
  qed
qed

lemma sync_traps_poweron: "sync_traps (pm_genpd_sync_poweron n timed)"
proof (induction n)
  case 0
  show ?case
    unfolding sync_traps_def
  proof (intro allI impI)
    fix W g s assume t: "trap W s"
    from sync_poweron_body_trap [OF sync_traps_None t, of g timed]
    show "(g \<in> W \<longrightarrow> pm_genpd_sync_poweron 0 timed g s = None)
        \<and> (\<forall>s'. pm_genpd_sync_poweron 0 timed g s = Some s' \<longrightarrow> trap W s')"
      by simp
  qed
next
  case (Suc n)
  show ?case
    unfolding sync_traps_def
  proof (intro allI impI)
    fix W g s assume t: "trap W s"
    from sync_poweron_body_trap [OF Suc t, of g timed]
    show "(g \<in> W \<longrightarrow> pm_genpd_sync_poweron (Suc n) timed g s = None)
        \<and> (\<forall>s'. pm_genpd_sync_poweron (Suc n) timed g s = Some s' \<longrightarrow> trap W s')"
      by simp
  qed
qed

text \<open>The synchronous power-on walk: the surplus of each counter.\<close>

lemma sync_frame_pending: "sync_frame W s s' \<Longrightarrow> pending_slaves V s' m = pending_slaves V s m"
  by (simp add: sync_frame_def pending_slaves_def)

lemma sync_frame_stack_off: "sync_frame W s s' \<Longrightarrow> stack_off W s \<Longrightarrow> stack_off W s'"
  by (simp add: sync_frame_def stack_off_def)

lemma sync_frame_links_bounded: "sync_frame W s s' \<Longrightarrow> links_bounded s' = links_bounded s"
  by (simp add: sync_frame_def links_bounded_def)

lemma sync_frame_chain_to: "sync_frame W s s' \<Longrightarrow> chain_to V t s' = chain_to V t s"
  by (simp add: sync_frame_def chain_to_def)

lemma active_pending_le:
  "stack_off W s \<Longrightarrow>
   active_slaves s m + pending_slaves W s m \<le> length (master_links (domains s m))"
  unfolding active_slaves_def pending_slaves_def
  by (rule filter_disjoint_length) (auto simp: stack_off_def)

lemma sync_headroom:
  assumes "links_bounded s" and "stack_off W s" and "excess s m < int (pending_slaves W s m)"
  shows "atomic_read (sd_count (domains s m)) < 2 ^ 31 - 1"
proof -
  have "atomic_read (sd_count (domains s m)) = int (active_slaves s m) + excess s m"
    by (simp add: excess_def)
  also have "\<dots> < int (active_slaves s m) + int (pending_slaves W s m)"
    using assms(3) by simp
  also have "\<dots> \<le> int (length (master_links (domains s m)))"
    using active_pending_le [OF assms(2), of m] by linarith
  finally have a: "atomic_read (sd_count (domains s m)) < int (length (master_links (domains s m)))" .
  have "length (master_links (domains s m)) < 2 ^ 31"
    using assms(1) by (simp add: links_bounded_def)
  then have "int (length (master_links (domains s m))) < 2 ^ 31" by simp
  with a show ?thesis by linarith
qed

lemma sync_on_keeps_None: "sync_on_keeps (\<lambda>_ _. None)"
  by (simp add: sync_on_keeps_def)

lemma sync_poweron_masters_excess:
  assumes K: "sync_on_keeps sync"
  shows "sync_poweron_masters sync ls s = Some s' \<Longrightarrow> links_wf s \<Longrightarrow> links_bounded s \<Longrightarrow>
     stack_off W s \<Longrightarrow> (\<And>l. l \<in> set ls \<Longrightarrow> chain_to W (master l) s) \<Longrightarrow>
     (\<And>m. 0 \<le> excess s m) \<Longrightarrow>
     (\<And>m. excess s m + int (links_from m ls) \<le> int (pending_slaves W s m)) \<Longrightarrow>
     sync_frame W s s' \<and> (\<forall>m. excess s' m = excess s m + int (links_from m ls))"
proof (induction ls arbitrary: s)
  case Nil
  then show ?case by simp
next
  case (Cons l ls)
  from Cons.prems(1) obtain s1 where c: "sync (master l) s = Some s1"
    and rest: "sync_poweron_masters sync ls (genpd_sd_counter_inc (master l) s1) = Some s'"
    by (auto split: option.splits)
  let ?si = "genpd_sd_counter_inc (master l) s1"
  have "excess s m \<le> int (pending_slaves W s m)" for m
    using Cons.prems(7) [of m] by linarith
  with Cons.prems(2,3,4,6) have "sync_on_pre W s" by (simp add: sync_on_pre_def)
  moreover have "chain_to W (master l) s" using Cons.prems(5) by simp
  ultimately have f1: "sync_frame W s s1" and e1: "\<And>m. excess s1 m = excess s m"
    using K c unfolding sync_on_keeps_def by blast+
  have b1: "links_bounded s1" using Cons.prems(3) sync_frame_links_bounded [OF f1] by simp
  have o1: "stack_off W s1" using sync_frame_stack_off [OF f1 Cons.prems(4)] .
  have "excess s1 (master l) < int (pending_slaves W s1 (master l))"
    using Cons.prems(7) [of "master l"] by (simp add: e1 sync_frame_pending [OF f1])
  from sync_headroom [OF b1 o1 this]
  have xi: "excess ?si m = excess s1 m + (if m = master l then 1 else 0)" for m
    by (rule excess_inc)
  have fi: "sync_frame W s1 ?si" by simp
  have f0i: "sync_frame W s ?si" using sync_frame_trans [OF f1 fi] .
  have wi: "links_wf ?si" using Cons.prems(2) sync_frame_links_wf [OF f0i] by simp
  have bi: "links_bounded ?si" using Cons.prems(3) sync_frame_links_bounded [OF f0i] by simp
  have oi: "stack_off W ?si" using sync_frame_stack_off [OF f0i Cons.prems(4)] .
  have ci: "chain_to W (master k) ?si" if "k \<in> set ls" for k
    using Cons.prems(5) [of k] that by (simp add: sync_frame_chain_to [OF f0i])
  have ni: "0 \<le> excess ?si m" for m using Cons.prems(6) [of m] by (simp add: xi e1)
  have ui: "excess ?si m + int (links_from m ls) \<le> int (pending_slaves W ?si m)" for m
    using Cons.prems(7) [of m] by (auto simp: xi e1 sync_frame_pending [OF f0i])
  from Cons.IH [OF rest wi bi oi ci ni ui] have f: "sync_frame W ?si s'"
    and e: "\<And>m. excess s' m = excess ?si m + int (links_from m ls)"
    by blast+
  have "excess s' m = excess s m + int (links_from m (l # ls))" for m
    using e [of m] by (auto simp: xi e1)
  then show ?case using sync_frame_trans [OF f0i f] by blast
qed

lemma pending_slaves_insert:
  assumes "g \<notin> W" and "links_wf s"
  shows "pending_slaves (insert g W) s m
     = pending_slaves W s m + links_from m (slave_links (domains s g))"
proof -
  have "pending_slaves (insert g W) s m
      = pending_slaves W s m + length (filter (\<lambda>l. slave l = g) (master_links (domains s m)))"
    unfolding pending_slaves_def
    by (rule count_lock_on [where lk = "\<lambda>x. x \<in> W" and lk' = "\<lambda>x. x \<in> insert g W"])
       (simp_all add: assms(1))
  then show ?thesis using links_wf_count [OF assms(2), of g m] by simp
qed

lemma sync_poweron_body_excess:
  assumes K: "sync_on_keeps sync" and T: "sync_traps sync"
    and B: "pm_genpd_sync_poweron_body sync timed g s = Some s'"
    and P: "sync_on_pre W s" and C: "chain_to W g s"
  shows "sync_frame W s s' \<and> (\<forall>m. excess s' m = excess s m)"
proof (cases "status (domains s g) = GPD_STATE_ACTIVE")
  case True
  with B have "s' = s" by (simp add: pm_genpd_sync_poweron_body_def)
  then show ?thesis by simp
next
  case False
  from P have W: "links_wf s" and LB: "links_bounded s" and O: "stack_off W s"
    and N: "\<And>m. 0 \<le> excess s m" and U: "\<And>m. excess s m \<le> int (pending_slaves W s m)"
    by (simp_all add: sync_on_pre_def)
  have gw: "g \<notin> W"
  proof
    assume g: "g \<in> W"
    then have "insert g W = W" by blast
    with C O have "trap W s" by (simp add: trap_def chain_to_def)
    from sync_poweron_body_trap [OF T this, of g timed] g B show False by simp
  qed
  let ?V = "insert g W"
  let ?ls = "slave_links (domains s g)"
  from False B obtain s1 where m: "sync_poweron_masters sync ?ls s = Some s1"
    and e: "s' = upd_domain g (\<lambda>d. d\<lparr>status := GPD_STATE_ACTIVE\<rparr>)
                   (snd (genpd_power_on g timed s1))"
    by (auto simp: pm_genpd_sync_poweron_body_def split: option.splits)
  have OV: "stack_off ?V s" using O False by (simp add: stack_off_def)
  have CV: "chain_to ?V (master l) s" if "l \<in> set ?ls" for l
    unfolding chain_to_def
  proof
    fix x assume "x \<in> ?V"
    then consider "x = g" | "x \<in> W" by blast
    then show "\<exists>k \<in> set (slave_links (domains s x)). master k \<in> insert (master l) ?V"
    proof cases
      case 1
      with that show ?thesis by blast
    next
      case 2
      with C obtain k where "k \<in> set (slave_links (domains s x))" "master k \<in> insert g W"
        unfolding chain_to_def by blast
      then show ?thesis by blast
    qed
  qed
  have UV: "excess s m + int (links_from m ?ls) \<le> int (pending_slaves ?V s m)" for m
    using U [of m] by (simp add: pending_slaves_insert [OF gw W])
  from sync_poweron_masters_excess [OF K m W LB OV CV N UV]
  have f: "sync_frame ?V s s1" and x1: "\<And>m. excess s1 m = excess s m + int (links_from m ?ls)"
    by blast+
  let ?s2 = "snd (genpd_power_on g timed s1)"
  have t2: "topo ?s2 = topo s1" by simp
  have f2: "sync_frame ?V s ?s2" using sync_frame_trans [OF f sync_frame_topo [OF t2]] .
  have st: "status (domains ?s2 g) \<noteq> GPD_STATE_ACTIVE"
    using f2 False by (simp add: sync_frame_def)
  have ml: "master_links (domains ?s2 m) = master_links (domains s m)" for m
    using f2 by (simp add: sync_frame_def)
  have "excess s' m = excess s m" for m
  proof -
    have "active_slaves s' m = active_slaves ?s2 m + links_from m ?ls"
      unfolding e
      using active_slaves_power_on [OF st, of m] links_wf_count [OF W, of g m] by (simp add: ml)
    moreover have "sd_count (domains s' m) = sd_count (domains ?s2 m)"
      by (simp add: e upd_domain_def)
    ultimately have "excess s' m = excess ?s2 m - int (links_from m ?ls)"
      by (simp add: excess_def)
    then show ?thesis using x1 [of m] by (simp add: excess_topo [OF t2])
  qed
  moreover have "sync_frame W s s'"
    using f2 gw by (auto simp: e upd_domain_def sync_frame_def)
  ultimately show ?thesis by blast
qed

lemma sync_on_keeps_poweron: "sync_on_keeps (pm_genpd_sync_poweron n timed)"
proof (induction n)
  case 0
  show ?case
    unfolding sync_on_keeps_def
  proof (intro allI impI)
    fix W g s s'
    assume a: "pm_genpd_sync_poweron 0 timed g s = Some s'" and p: "sync_on_pre W s"
      and c: "chain_to W g s"
    from a have b: "pm_genpd_sync_poweron_body (\<lambda>_ _. None) timed g s = Some s'" by simp
    from sync_poweron_body_excess [OF sync_on_keeps_None sync_traps_None b p c]
    show "sync_frame W s s' \<and> (\<forall>m. excess s' m = excess s m)" .
  qed
next
  case (Suc n)
  show ?case
    unfolding sync_on_keeps_def
  proof (intro allI impI)
    fix W g s s'
    assume a: "pm_genpd_sync_poweron (Suc n) timed g s = Some s'" and p: "sync_on_pre W s"
      and c: "chain_to W g s"
    from a have b: "pm_genpd_sync_poweron_body (pm_genpd_sync_poweron n timed) timed g s = Some s'"
      by simp
    from sync_poweron_body_excess [OF Suc sync_traps_poweron b p c]
    show "sync_frame W s s' \<and> (\<forall>m. excess s' m = excess s m)" .
  qed
qed

lemma dag_inv_sync_poweron:
  assumes "dag_inv s" and "links_bounded s" and "pm_genpd_sync_poweron n timed g s = Some s'"
  shows "dag_inv s' \<and> (\<forall>m. master_links (domains s' m) = master_links (domains s m))"
proof -
  have W: "links_wf s" and E: "\<forall>m. excess s m = 0" and U: "unlocked s"
    using assms(1) by (simp_all add: dag_inv_def sd_count_inv_excess)
  have "sync_on_pre {} s"
    using W E assms(2) by (simp add: sync_on_pre_def stack_off_def)
  moreover have "chain_to {} g s" by (simp add: chain_to_def)
  ultimately have f: "sync_frame {} s s'" and e: "\<forall>m. excess s' m = excess s m"
    using sync_on_keeps_poweron [of n timed] assms(3) unfolding sync_on_keeps_def by blast+
  have "dag_inv s'"
    using W E U e sync_frame_links_wf [OF f] sync_frame_unlocked [OF f]
    by (simp add: dag_inv_def sd_count_inv_excess)
  then show ?thesis using f by (simp add: sync_frame_def)
qed


lemma dag_inv_step:
  assumes "dag_inv s" and "counter_op op" and "step n op s = Some s'"
    and LB: "\<And>m. length (master_links (domains s m)) + (if adds_link op then 1 else 0) < 2 ^ 31"
  shows "dag_inv s'
     \<and> (\<forall>m. length (master_links (domains s' m))
              \<le> length (master_links (domains s m)) + (if adds_link op then 1 else 0))"
proof (cases op)
  case (Add_subdomain m sd)
  then obtain r where a: "pm_genpd_add_subdomain m sd s = Some (r, s')"
    using assms(3) by auto
  have "Suc (length (master_links (domains s x))) < 2 ^ 31" for x
    using LB [of x] Add_subdomain by simp
  from dag_inv_add_subdomain [OF assms(1) a this] show ?thesis
    using Add_subdomain by simp
next
  case (Remove_subdomain m sd)
  then obtain r where a: "pm_genpd_remove_subdomain m sd s = Some (r, s')"
    using assms(3) by auto
  from dag_inv_remove_subdomain [OF assms(1) a] show ?thesis
    using Remove_subdomain by simp
next
  case (Poweron g)
  then obtain r where a: "genpd_poweron n g s = Some (r, s')"
    using assms(3) by auto
  have "links_bounded s" using LB Poweron by (simp add: links_bounded_def)
  from dag_inv_genpd_poweron [OF assms(1) this a] show ?thesis
    using Poweron by simp
next
  case (Poweroff g a)
  then have "s' = snd (genpd_poweroff g a s)" using assms(3) by simp
  then show ?thesis using dag_inv_genpd_poweroff [OF assms(1), of g a] Poweroff by simp
next
  case (Sync_poweron g t)
  then have a: "pm_genpd_sync_poweron n t g s = Some s'" using assms(3) by simp
  have "links_bounded s" using LB Sync_poweron by (simp add: links_bounded_def)
  from dag_inv_sync_poweron [OF assms(1) this a] show ?thesis
    using Sync_poweron by simp
next
  case (Sync_poweroff g t)
  then have a: "pm_genpd_sync_poweroff n t g s = Some s'" using assms(3) by simp
  from dag_inv_sync_poweroff [OF assms(1) a] show ?thesis
    using Sync_poweroff by simp
next
  case (Init clk_suspend clk_resume g gv is_off)
  then show ?thesis using assms by simp
qed

lemma dag_op_counter_op: "dag_op op \<Longrightarrow> counter_op op"
  by (cases op) simp_all

lemma dag_inv_run:
  "dag_inv s \<Longrightarrow> list_all counter_op ops \<Longrightarrow>
   (\<And>m. length (master_links (domains s m)) + length (filter adds_link ops) < 2 ^ 31) \<Longrightarrow>
   run n ops s = Some s' \<Longrightarrow> dag_inv s'"
proof (induction ops arbitrary: s)
  case Nil
  then show ?case by simp
next
  case (Cons op ops)
  from Cons.prems(4) obtain s1 where a: "step n op s = Some s1" and b: "run n ops s1 = Some s'"
    by (auto split: option.splits)
  have d: "counter_op op" and ds: "list_all counter_op ops" using Cons.prems(2) by simp_all
  have lb: "length (master_links (domains s m)) + (if adds_link op then 1 else 0) < 2 ^ 31" for m
    using Cons.prems(3) [of m] by (simp split: if_splits)
  from dag_inv_step [OF Cons.prems(1) d a lb]
  have i1: "dag_inv s1"
    and l1: "\<And>m. length (master_links (domains s1 m))
              \<le> length (master_links (domains s m)) + (if adds_link op then 1 else 0)"
    by blast+
  have "length (master_links (domains s1 m)) + length (filter adds_link ops) < 2 ^ 31" for m
    using l1 [of m] Cons.prems(3) [of m] by (simp split: if_splits)
  from Cons.IH [OF i1 ds this b] show ?case .
qed


lemma dag_inv_fresh: "freshly_initialized s \<Longrightarrow> dag_inv s"
  by (simp add: freshly_initialized_def dag_inv_def links_wf_def sd_count_inv_def
      active_slaves_def unlocked_def)

lemma pm_genpd_init_fresh:
  assumes "pm_genpd_init clk_suspend clk_resume (Some g) gv is_off s = Some s'"
  shows "master_links (domains s' g) = [] \<and> slave_links (domains s' g) = []
     \<and> sd_count (domains s' g) = 0 \<and> \<not> lock (domains s' g)
     \<and> (\<forall>x. x \<noteq> g \<longrightarrow> domains s' x = domains s x)"
  using assms by (auto simp: pm_genpd_init_def Let_def upd_domain_def split: if_splits)


text \<open>
  C1.  Start from freshly initialised domains (no links, counters at zero, mutexes free)
  and run any sequence of \<open>pm_genpd_add_subdomain\<close>, \<open>pm_genpd_remove_subdomain\<close>,
  \<open>genpd_poweron\<close> (the mutex taken around \<open>__genpd_poweron\<close>) and
  \<open>genpd_poweroff\<close> operations, each of which returns, with fewer than \<open>2^31\<close>
  calls of \<open>pm_genpd_add_subdomain\<close> among them, so that no domain ever is the master
  of \<open>2^31\<close> links and the 32-bit counter does not wrap around.  Then for every domain
  \<open>D\<close>, \<open>D.sd_count\<close>, read as a signed integer, is the number of links in
  \<open>D.master_links\<close> whose slave is active.
\<close>

theorem sd_count_counts_active_slaves:
  assumes "freshly_initialized s0" and "list_all dag_op ops"
    and "length (filter adds_link ops) < 2 ^ 31" and "run n ops s0 = Some s"
  shows "atomic_read (sd_count (domains s D))
     = int (length (filter (\<lambda>L. status (domains s (slave L)) = GPD_STATE_ACTIVE)
                      (master_links (domains s D))))"
proof -
  have "length (master_links (domains s0 m)) + length (filter adds_link ops) < 2 ^ 31" for m
    using assms(1,3) by (simp add: freshly_initialized_def)
  moreover have "list_all counter_op ops"
    using assms(2) by (simp add: list_all_iff dag_op_counter_op)
  ultimately have "dag_inv s"
    using dag_inv_run [OF dag_inv_fresh [OF assms(1)] _ _ assms(4)] by blast
  then show ?thesis by (simp add: dag_inv_def sd_count_inv_def active_slaves_def)
qed

theorem sd_count_counts_active_slaves_witness:
  "freshly_initialized state0 \<and> list_all dag_op ops_on
   \<and> length (filter adds_link ops_on) < 2 ^ 31
   \<and> run 2 ops_on state0 \<noteq> None
   \<and> atomic_read (sd_count (domains (the (run 2 ops_on state0)) 0))
       = int (length (filter (\<lambda>L. status (domains (the (run 2 ops_on state0)) (slave L))
                                   = GPD_STATE_ACTIVE)
                        (master_links (domains (the (run 2 ops_on state0)) 0))))
   \<and> atomic_read (sd_count (domains (the (run 2 ops_on state0)) 0)) = 1"
proof -
  have f: "freshly_initialized state0"
    by (simp add: freshly_initialized_def state0_def dom0_def)
  have d: "list_all dag_op ops_on" by (simp add: ops_on_def)
  have b: "length (filter adds_link ops_on) < 2 ^ 31" by (simp add: ops_on_def)
  have r: "run 2 ops_on state0 \<noteq> None
      \<and> atomic_read (sd_count (domains (the (run 2 ops_on state0)) 0)) = 1"
    by (simp add: ops_on_def numeral_2_eq_2 state0_def dom0_def pm_genpd_add_subdomain_def
        kzalloc_def mutex_lock_def mutex_unlock_def upd_domain_def Let_def
        dunder_genpd_poweron_body_def genpd_power_on_def genpd_sd_counter_inc_eq)
  then have "run 2 ops_on state0 = Some (the (run 2 ops_on state0))" by simp
  from sd_count_counts_active_slaves [OF f d b this, of 0] f d b r
  show ?thesis by simp
qed


subsection \<open>The subdomain counter is never negative\<close>


lemma sd_nonneg_topo: "topo s' = topo s \<Longrightarrow> sd_nonneg s' = sd_nonneg s"
  by (simp add: topo_eq_iff sd_nonneg_def)

lemma sd_nonneg_frame [simp]:
  "sd_nonneg (snd (genpd_power_on g timed s)) = sd_nonneg s"
  "sd_nonneg (snd (genpd_power_off g timed s)) = sd_nonneg s"
  "sd_nonneg (snd (gov_power_down_veto g s)) = sd_nonneg s"
  "sd_nonneg (genpd_queue_power_off_work g s) = sd_nonneg s"
  by (rule sd_nonneg_topo, simp)+






















end
